theory Spec2Isabelle
  imports Main
begin

section \<open>HgRepositoryClient: the client-side Mercurial status cache\<close>

text \<open>
  A shallow embedding of the class \<open>HgRepositoryClient\<close>. The object's fields are a record;
  every method takes the record and returns the updated one. The effects of a method on the
  outside world are kept in the record as logs: the events given to the emitter (each with
  the caches as a subscriber sees them at that moment), the calls made to the backend
  \<open>HgService\<close>, and the disposables that were disposed.

  Asynchronous methods are run to completion: the model has no interleaving at an
  \<open>await\<close>. The backend is a parameter; since its answers may change over time, every
  backend function takes the number of backend calls made before it as an extra argument.
\<close>

subsection \<open>JavaScript containers\<close>

text \<open>
  A JavaScript object used as a dictionary and a \<open>Map\<close> hold each key once and keep the
  keys in insertion order; storing under an existing key keeps its position. A \<open>Set\<close> keeps
  its elements in insertion order.
\<close>

type_synonym ('k, 'v) jsmap = "('k \<times> 'v) list"

definition map_get :: "('k, 'v) jsmap \<Rightarrow> 'k \<Rightarrow> 'v option" where
  "map_get m k = map_of m k"

definition map_has :: "('k, 'v) jsmap \<Rightarrow> 'k \<Rightarrow> bool" where
  "map_has m k = (map_of m k \<noteq> None)"

primrec map_set :: "'k \<Rightarrow> 'v \<Rightarrow> ('k, 'v) jsmap \<Rightarrow> ('k, 'v) jsmap" where
  "map_set k v [] = [(k, v)]"
| "map_set k v (e # es) = (if fst e = k then (k, v) # es else e # map_set k v es)"

definition map_delete :: "'k \<Rightarrow> ('k, 'v) jsmap \<Rightarrow> ('k, 'v) jsmap" where
  "map_delete k m = filter (\<lambda>e. fst e \<noteq> k) m"

definition map_keys :: "('k, 'v) jsmap \<Rightarrow> 'k list" where
  "map_keys m = map fst m"

type_synonym 'a jsset = "'a list"

definition set_has :: "'a jsset \<Rightarrow> 'a \<Rightarrow> bool" where
  "set_has xs x = (x \<in> set xs)"

definition set_add :: "'a \<Rightarrow> 'a jsset \<Rightarrow> 'a jsset" where
  "set_add x xs = (if x \<in> set xs then xs else xs @ [x])"

definition set_delete :: "'a \<Rightarrow> 'a jsset \<Rightarrow> 'a jsset" where
  "set_delete x xs = filter (\<lambda>y. y \<noteq> x) xs"

definition set_new :: "'a list \<Rightarrow> 'a jsset" where
  "set_new xs = foldl (\<lambda>acc x. set_add x acc) [] xs"

subsection \<open>Constants and types of the Mercurial service\<close>

type_synonym NuclideUri = string

text \<open>
  The status codes are declared in \<open>nuclide-hg-rpc/lib/hg-constants\<close>, which is not among
  the sources; the closed set is the one the specification lists. \<open>StatusCodeId\<close> values
  are non-empty strings, so a cached status is truthy exactly when the cache has an entry.
\<close>

datatype StatusCodeIdValue = ADDED | CLEAN | IGNORED | MODIFIED | MISSING | REMOVED | UNTRACKED

datatype StatusCodeNumberValue =
  NUM_ADDED | NUM_CLEAN | NUM_IGNORED | NUM_MODIFIED | NUM_MISSING | NUM_REMOVED | NUM_UNTRACKED

fun StatusCodeIdToNumber :: "StatusCodeIdValue \<Rightarrow> StatusCodeNumberValue" where
  "StatusCodeIdToNumber ADDED = NUM_ADDED"
| "StatusCodeIdToNumber CLEAN = NUM_CLEAN"
| "StatusCodeIdToNumber IGNORED = NUM_IGNORED"
| "StatusCodeIdToNumber MODIFIED = NUM_MODIFIED"
| "StatusCodeIdToNumber MISSING = NUM_MISSING"
| "StatusCodeIdToNumber REMOVED = NUM_REMOVED"
| "StatusCodeIdToNumber UNTRACKED = NUM_UNTRACKED"

datatype HgStatusOptionValue = ONLY_NON_IGNORED | ONLY_IGNORED | ALL_STATUSES

record HgStatusCommandOptions =
  hgStatusOption :: HgStatusOptionValue

record LineDiff =
  oldStart :: int
  oldLines :: int
  newStart :: int
  newLines :: int

record DiffInfo =
  added :: int
  deleted :: int
  lineDiffs :: "LineDiff list"

record DiffStats =
  stats_added :: int
  stats_deleted :: int

text \<open>The list of files changed at a revision is stored and returned as it is.\<close>

type_synonym RevisionFileChanges = "NuclideUri list"

definition MAX_INDIVIDUAL_CHANGED_PATHS :: nat where
  "MAX_INDIVIDUAL_CHANGED_PATHS = 1"




subsection \<open>The bounded least-recently-used cache\<close>

text \<open>
  The two revision caches are objects of the library \<open>lru-cache\<close>, built with
  \<open>new LRU({max: n})\<close>. The model keeps the entries most recently used first: \<open>get\<close>
  moves the entry it finds to the front, \<open>set\<close> puts the entry at the front and drops the
  entries beyond \<open>max\<close> from the far end, \<open>reset\<close> empties the cache.
\<close>

record ('k, 'v) LRU =
  lru_max :: nat
  lru_items :: "('k \<times> 'v) list"

definition lru_new :: "nat \<Rightarrow> ('k, 'v) LRU" where
  "lru_new n = \<lparr>lru_max = n, lru_items = []\<rparr>"

definition lru_get :: "('k, 'v) LRU \<Rightarrow> 'k \<Rightarrow> 'v option \<times> ('k, 'v) LRU" where
  "lru_get c k =
     (case map_of (lru_items c) k of
        None \<Rightarrow> (None, c)
      | Some v \<Rightarrow> (Some v, c\<lparr>lru_items := (k, v) # map_delete k (lru_items c)\<rparr>))"

definition lru_set :: "'k \<Rightarrow> 'v \<Rightarrow> ('k, 'v) LRU \<Rightarrow> ('k, 'v) LRU" where
  "lru_set k v c = c\<lparr>lru_items := take (lru_max c) ((k, v) # map_delete k (lru_items c))\<rparr>"

definition lru_reset :: "('k, 'v) LRU \<Rightarrow> ('k, 'v) LRU" where
  "lru_reset c = c\<lparr>lru_items := []\<rparr>"

subsection \<open>The environment of the client\<close>

text \<open>
  \<open>Env\<close> holds what the client reads from Atom's \<open>Directory\<close> objects and from
  \<open>nuclideUri\<close>, none of which is among the sources: whether the project directory contains
  a path, the path of the project directory and of its parent, \<open>nuclideUri.normalizeDir\<close>,
  and the chain of ancestor directories of a file beyond a prefix to skip, which
  \<open>./utils\<close> computes for the modified-directory index.
\<close>

record Env =
  projectDirectory_contains :: "NuclideUri \<Rightarrow> bool"
  projectDirectory_getPath :: NuclideUri
  projectDirectory_getParent_getPath :: NuclideUri
  workingDirectory_getPath :: NuclideUri
  normalizeDir :: "string \<Rightarrow> string"
  parentDirectories :: "NuclideUri \<Rightarrow> NuclideUri \<Rightarrow> string list"

text \<open>
  The promise that \<open>fetchDiffInfo\<close> returns settles in one of two ways: it is rejected
  (the call to the service failed), or it is resolved with the answer, which is \<open>null\<close>
  when \<open>hg diff\<close> failed and a \<open>Map\<close> otherwise.
\<close>

datatype 'a Settled = Rejected | Resolved 'a

record HgService =
  fetchStatuses ::
    "nat \<Rightarrow> NuclideUri list \<Rightarrow> HgStatusCommandOptions option \<Rightarrow>
     (NuclideUri, StatusCodeIdValue) jsmap"
  fetchDiffInfo :: "nat \<Rightarrow> NuclideUri list \<Rightarrow> (NuclideUri, DiffInfo) jsmap option Settled"
  service_fetchFileContentAtRevision :: "nat \<Rightarrow> NuclideUri \<Rightarrow> string \<Rightarrow> string"
  service_fetchFilesChangedAtRevision :: "nat \<Rightarrow> string \<Rightarrow> RevisionFileChanges"

datatype ServiceCall =
  FetchStatuses "NuclideUri list" "HgStatusCommandOptions option"
| FetchDiffInfo "NuclideUri list"
| FetchFileContentAtRevision NuclideUri string
| FetchFilesChangedAtRevision string
| Commit string
| Amend "string option"

datatype Event =
  DidDestroy
| DidChangeStatus NuclideUri StatusCodeNumberValue
| DidChangeStatuses
| DidChangeConflictState

datatype Disposable =
  EditorSubscription NuclideUri
| Subscriptions

subsection \<open>The fields of the client\<close>

type_synonym CacheView =
  "(NuclideUri, StatusCodeIdValue) jsmap \<times> (string, int) jsmap \<times> (NuclideUri, DiffInfo) jsmap"

record HgRepositoryClient =
  editorSubscriptions :: "(NuclideUri, Disposable) jsmap"
  hgStatusCache :: "(NuclideUri, StatusCodeIdValue) jsmap"
  modifiedDirectoryCache :: "(string, int) jsmap"
  hgDiffCache :: "(NuclideUri, DiffInfo) jsmap"
  hgDiffCacheFilesUpdating :: "NuclideUri jsset"
  hgDiffCacheFilesToClear :: "NuclideUri jsset"
  revisionIdToFileChanges :: "(string, RevisionFileChanges) LRU"
  fileContentsAtRevisionIds :: "(string, (NuclideUri, string) jsmap) LRU"
  isInConflict :: bool
  isDestroyed_field :: bool
  emitted :: "(Event \<times> CacheView) list"
  serviceCalls :: "ServiceCall list"
  disposed :: "Disposable list"

text \<open>The constructor: every cache starts empty, the two revision caches hold 100 and 20.\<close>

definition constructor :: HgRepositoryClient where
  "constructor =
     \<lparr>editorSubscriptions = [],
      hgStatusCache = [],
      modifiedDirectoryCache = [],
      hgDiffCache = [],
      hgDiffCacheFilesUpdating = [],
      hgDiffCacheFilesToClear = [],
      revisionIdToFileChanges = lru_new 100,
      fileContentsAtRevisionIds = lru_new 20,
      isInConflict = False,
      isDestroyed_field = False,
      emitted = [],
      serviceCalls = [],
      disposed = []\<rparr>"

definition cacheView :: "HgRepositoryClient \<Rightarrow> CacheView" where
  "cacheView s = (hgStatusCache s, modifiedDirectoryCache s, hgDiffCache s)"

definition emit :: "Event \<Rightarrow> HgRepositoryClient \<Rightarrow> HgRepositoryClient" where
  "emit e s = s\<lparr>emitted := emitted s @ [(e, cacheView s)]\<rparr>"

definition callService :: "ServiceCall \<Rightarrow> HgRepositoryClient \<Rightarrow> HgRepositoryClient" where
  "callService c s = s\<lparr>serviceCalls := serviceCalls s @ [c]\<rparr>"

subsection \<open>Teardown\<close>

definition destroy :: "HgRepositoryClient \<Rightarrow> HgRepositoryClient" where
  "destroy s =
     (if isDestroyed_field s then s
      else
        let s1 = s\<lparr>isDestroyed_field := True\<rparr>;
            s2 = s1\<lparr>disposed := disposed s1 @ map snd (editorSubscriptions s1)\<rparr>;
            s3 = s2\<lparr>editorSubscriptions := []\<rparr>;
            s4 = emit DidDestroy s3;
            s5 = s4\<lparr>disposed := disposed s4 @ [Subscriptions]\<rparr>;
            s6 = s5\<lparr>revisionIdToFileChanges := lru_reset (revisionIdToFileChanges s5)\<rparr>
        in s6\<lparr>fileContentsAtRevisionIds := lru_reset (fileContentsAtRevisionIds s6)\<rparr>)"

definition isDestroyed :: "HgRepositoryClient \<Rightarrow> bool" where
  "isDestroyed s = isDestroyed_field s"

definition conflictStateChanged :: "bool \<Rightarrow> HgRepositoryClient \<Rightarrow> HgRepositoryClient" where
  "conflictStateChanged b s = emit DidChangeConflictState (s\<lparr>isInConflict := b\<rparr>)"

subsection \<open>Reading the caches\<close>

text \<open>
  A path argument of type \<open>?NuclideUri\<close> is \<open>None\<close> for \<open>null\<close> and \<open>undefined\<close>.
  The test \<open>!filePath\<close> also holds for the empty string.
\<close>

definition falsy :: "string option \<Rightarrow> bool" where
  "falsy p = (p = None \<or> p = Some [])"

definition isPathRelevant :: "Env \<Rightarrow> NuclideUri \<Rightarrow> bool" where
  "isPathRelevant env filePath =
     (projectDirectory_contains env filePath \<or> projectDirectory_getPath env = filePath)"

definition getDirectoryStatus ::
  "Env \<Rightarrow> HgRepositoryClient \<Rightarrow> string option \<Rightarrow> StatusCodeNumberValue" where
  "getDirectoryStatus env s directoryPath =
     (case directoryPath of
        None \<Rightarrow> NUM_CLEAN
      | Some dir \<Rightarrow>
          if falsy directoryPath then NUM_CLEAN
          else
            let directoryPathWithSeparator = normalizeDir env dir
            in if map_has (modifiedDirectoryCache s) directoryPathWithSeparator
               then NUM_MODIFIED
               else NUM_CLEAN)"

definition getCachedPathStatus ::
  "HgRepositoryClient \<Rightarrow> NuclideUri option \<Rightarrow> StatusCodeNumberValue" where
  "getCachedPathStatus s filePath =
     (case filePath of
        None \<Rightarrow> NUM_CLEAN
      | Some p \<Rightarrow>
          if falsy filePath then NUM_CLEAN
          else
            (case map_get (hgStatusCache s) p of
               Some cachedStatus \<Rightarrow> StatusCodeIdToNumber cachedStatus
             | None \<Rightarrow> NUM_CLEAN))"

definition getDiffStats :: "HgRepositoryClient \<Rightarrow> NuclideUri option \<Rightarrow> DiffStats" where
  "getDiffStats s filePath =
     (let cleanStats = \<lparr>stats_added = 0, stats_deleted = 0\<rparr>
      in case filePath of
           None \<Rightarrow> cleanStats
         | Some p \<Rightarrow>
             if falsy filePath then cleanStats
             else
               (case map_get (hgDiffCache s) p of
                  Some cachedData \<Rightarrow>
                    \<lparr>stats_added = added cachedData, stats_deleted = deleted cachedData\<rparr>
                | None \<Rightarrow> cleanStats))"

definition getLineDiffs :: "HgRepositoryClient \<Rightarrow> NuclideUri option \<Rightarrow> LineDiff list" where
  "getLineDiffs s filePath =
     (case filePath of
        None \<Rightarrow> []
      | Some p \<Rightarrow>
          if falsy filePath then []
          else
            (case map_get (hgDiffCache s) p of
               Some diffInfo \<Rightarrow> lineDiffs diffInfo
             | None \<Rightarrow> []))"

subsection \<open>The modified-directory index\<close>

text \<open>
  Modelled from the spec: \<open>addAllParentDirectoriesToCache\<close> of \<open>./utils\<close> is not among the
  sources. The specification (4.3) says that it increments the reference count of every
  ancestor directory between the path and the project boundary.
\<close>

definition addAllParentDirectoriesToCache ::
  "Env \<Rightarrow> (string, int) jsmap \<Rightarrow> NuclideUri \<Rightarrow> NuclideUri \<Rightarrow> (string, int) jsmap" where
  "addAllParentDirectoriesToCache env cache filePath prefixToSkip =
     foldl
       (\<lambda>c directoryPath.
          case map_get c directoryPath of
            None \<Rightarrow> map_set directoryPath 1 c
          | Some n \<Rightarrow> map_set directoryPath (n + 1) c)
       cache (parentDirectories env filePath prefixToSkip)"

text \<open>
  Modelled from the spec: \<open>removeAllParentDirectoriesFromCache\<close> of \<open>./utils\<close> is not among
  the sources. The specification (4.3) says that it decrements the same chain and deletes
  any ancestor entry whose count reaches zero. A directory with no entry is left alone.
\<close>

definition removeAllParentDirectoriesFromCache ::
  "Env \<Rightarrow> (string, int) jsmap \<Rightarrow> NuclideUri \<Rightarrow> NuclideUri \<Rightarrow> (string, int) jsmap" where
  "removeAllParentDirectoriesFromCache env cache filePath prefixToSkip =
     foldl
       (\<lambda>c directoryPath.
          case map_get c directoryPath of
            None \<Rightarrow> c
          | Some n \<Rightarrow>
              if n - 1 = 0 then map_delete directoryPath c
              else map_set directoryPath (n - 1) c)
       cache (parentDirectories env filePath prefixToSkip)"

definition addAllParentDirectories ::
  "Env \<Rightarrow> NuclideUri \<Rightarrow> HgRepositoryClient \<Rightarrow> HgRepositoryClient" where
  "addAllParentDirectories env filePath s =
     s\<lparr>modifiedDirectoryCache :=
         addAllParentDirectoriesToCache env (modifiedDirectoryCache s) filePath
           (projectDirectory_getParent_getPath env)\<rparr>"

definition removeAllParentDirectories ::
  "Env \<Rightarrow> NuclideUri \<Rightarrow> HgRepositoryClient \<Rightarrow> HgRepositoryClient" where
  "removeAllParentDirectories env filePath s =
     s\<lparr>modifiedDirectoryCache :=
         removeAllParentDirectoriesFromCache env (modifiedDirectoryCache s) filePath
           (projectDirectory_getParent_getPath env)\<rparr>"

subsection \<open>Updating the status cache\<close>

definition getStatusOption :: "HgStatusCommandOptions option \<Rightarrow> HgStatusOptionValue option" where
  "getStatusOption options =
     (case options of None \<Rightarrow> None | Some opts \<Rightarrow> Some (hgStatusOption opts))"


type_synonym StatusChangeEvent = "NuclideUri \<times> StatusCodeNumberValue"

text \<open>
  The body of the loop over the fetched statuses. It works on the client, the list
  \<open>statusChangeEvents\<close> and the set \<open>queriedFiles\<close>.
\<close>

definition applyFetchedStatus ::
  "Env \<Rightarrow> HgRepositoryClient \<times> StatusChangeEvent list \<times> NuclideUri jsset \<Rightarrow>
   NuclideUri \<times> StatusCodeIdValue \<Rightarrow>
   HgRepositoryClient \<times> StatusChangeEvent list \<times> NuclideUri jsset" where
  "applyFetchedStatus env acc entry =
     (case acc of (s, statusChangeEvents, queriedFiles) \<Rightarrow>
      case entry of (filePath, newStatusId) \<Rightarrow>
        let oldStatus = map_get (hgStatusCache s) filePath
        in if (oldStatus \<noteq> None \<and> oldStatus \<noteq> Some newStatusId) \<or>
              (oldStatus = None \<and> newStatusId \<noteq> CLEAN)
           then
             (if newStatusId = CLEAN
              then removeAllParentDirectories env filePath
                     (s\<lparr>hgStatusCache := map_delete filePath (hgStatusCache s)\<rparr>)
              else
                let s1 = s\<lparr>hgStatusCache := map_set filePath newStatusId (hgStatusCache s)\<rparr>
                in if newStatusId = MODIFIED then addAllParentDirectories env filePath s1
                   else s1,
              statusChangeEvents @ [(filePath, StatusCodeIdToNumber newStatusId)],
              set_delete filePath queriedFiles)
           else (s, statusChangeEvents, set_delete filePath queriedFiles))"

text \<open>The three loops over the queried files that the backend did not return.\<close>

definition evictOnlyIgnored :: "HgRepositoryClient \<Rightarrow> NuclideUri \<Rightarrow> HgRepositoryClient" where
  "evictOnlyIgnored s filePath =
     (if map_get (hgStatusCache s) filePath = Some IGNORED
      then s\<lparr>hgStatusCache := map_delete filePath (hgStatusCache s)\<rparr>
      else s)"

definition evictAllStatuses ::
  "Env \<Rightarrow> HgRepositoryClient \<Rightarrow> NuclideUri \<Rightarrow> HgRepositoryClient" where
  "evictAllStatuses env s filePath =
     (let cachedStatusId = map_get (hgStatusCache s) filePath;
          s1 = s\<lparr>hgStatusCache := map_delete filePath (hgStatusCache s)\<rparr>
      in if cachedStatusId = Some MODIFIED then removeAllParentDirectories env filePath s1
         else s1)"

definition evictNonIgnored ::
  "Env \<Rightarrow> HgRepositoryClient \<Rightarrow> NuclideUri \<Rightarrow> HgRepositoryClient" where
  "evictNonIgnored env s filePath =
     (let cachedStatusId = map_get (hgStatusCache s) filePath
      in if cachedStatusId \<noteq> Some IGNORED
         then
           let s1 = s\<lparr>hgStatusCache := map_delete filePath (hgStatusCache s)\<rparr>
           in if cachedStatusId = Some MODIFIED then removeAllParentDirectories env filePath s1
              else s1
         else s)"

definition evictQueriedFiles ::
  "Env \<Rightarrow> HgStatusCommandOptions option \<Rightarrow> NuclideUri jsset \<Rightarrow> HgRepositoryClient \<Rightarrow>
   HgRepositoryClient" where
  "evictQueriedFiles env options queriedFiles s =
     (case getStatusOption options of
        Some ONLY_IGNORED \<Rightarrow> foldl evictOnlyIgnored s queriedFiles
      | Some ALL_STATUSES \<Rightarrow> foldl (evictAllStatuses env) s queriedFiles
      | _ \<Rightarrow> foldl (evictNonIgnored env) s queriedFiles)"

definition emitStatusChangeEvents ::
  "StatusChangeEvent list \<Rightarrow> HgRepositoryClient \<Rightarrow> HgRepositoryClient" where
  "emitStatusChangeEvents statusChangeEvents s =
     emit DidChangeStatuses
       (foldl (\<lambda>s' ev. emit (DidChangeStatus (fst ev) (snd ev)) s') s statusChangeEvents)"

text \<open>
  What \<open>_updateStatuses\<close> does once the backend has answered with
  \<open>statusMapPathToStatusId\<close>: the cache is updated first, the events are emitted last.
\<close>

definition applyStatuses ::
  "Env \<Rightarrow> HgStatusCommandOptions option \<Rightarrow> NuclideUri list \<Rightarrow>
   (NuclideUri, StatusCodeIdValue) jsmap \<Rightarrow> HgRepositoryClient \<Rightarrow> HgRepositoryClient" where
  "applyStatuses env options pathsInRepo statusMapPathToStatusId s =
     (case foldl (applyFetchedStatus env) (s, [], set_new pathsInRepo) statusMapPathToStatusId of
        (s1, statusChangeEvents, queriedFiles) \<Rightarrow>
          emitStatusChangeEvents statusChangeEvents
            (evictQueriedFiles env options queriedFiles s1))"

definition updateStatuses ::
  "Env \<Rightarrow> HgService \<Rightarrow> HgRepositoryClient \<Rightarrow> NuclideUri list \<Rightarrow>
   HgStatusCommandOptions option \<Rightarrow>
   (NuclideUri, StatusCodeIdValue) jsmap \<times> HgRepositoryClient" where
  "updateStatuses env svc s filePaths options =
     (let pathsInRepo = filter (isPathRelevant env) filePaths
      in if length pathsInRepo = 0 then ([], s)
         else
           let statusMapPathToStatusId =
                 fetchStatuses svc (length (serviceCalls s)) pathsInRepo options
           in (statusMapPathToStatusId,
               applyStatuses env options pathsInRepo statusMapPathToStatusId
                 (callService (FetchStatuses pathsInRepo options) s)))"


subsection \<open>Updating the diff cache\<close>

text \<open>
  \<open>_updateDiffInfo\<close> in two parts: what runs before the backend is asked (the paths to
  fetch are chosen and marked as updating), and what runs once it has answered. The
  answer is \<open>None\<close> when \<open>hg diff\<close> failed. The \<open>await\<close> of the backend's
  promise stands in no \<open>try\<close>: when the promise is rejected the method stops there,
  its own promise is rejected, and nothing after the \<open>await\<close> runs. The first component
  of the result of \<open>updateDiffInfo\<close> is how the method's promise settles.
\<close>

definition choosePathToFetch ::
  "Env \<Rightarrow> NuclideUri jsset \<times> NuclideUri list \<Rightarrow> NuclideUri \<Rightarrow>
   NuclideUri jsset \<times> NuclideUri list" where
  "choosePathToFetch env acc aPath =
     (case acc of (updating, pathsToFetch) \<Rightarrow>
        if \<not> isPathRelevant env aPath then (updating, pathsToFetch)
        else if set_has updating aPath then (updating, pathsToFetch)
        else (set_add aPath updating, pathsToFetch @ [aPath]))"

definition beginUpdateDiffInfo ::
  "Env \<Rightarrow> HgRepositoryClient \<Rightarrow> NuclideUri list \<Rightarrow> NuclideUri list \<times> HgRepositoryClient" where
  "beginUpdateDiffInfo env s filePaths =
     (case foldl (choosePathToFetch env) (hgDiffCacheFilesUpdating s, []) filePaths of
        (updating, pathsToFetch) \<Rightarrow> (pathsToFetch, s\<lparr>hgDiffCacheFilesUpdating := updating\<rparr>))"

definition completeUpdateDiffInfo ::
  "NuclideUri list \<Rightarrow> (NuclideUri, DiffInfo) jsmap option \<Rightarrow> HgRepositoryClient \<Rightarrow>
   (NuclideUri, DiffInfo) jsmap option \<times> HgRepositoryClient" where
  "completeUpdateDiffInfo pathsToFetch pathsToDiffInfo s =
     (let s1 = (case pathsToDiffInfo of
                  None \<Rightarrow> s
                | Some fetched \<Rightarrow>
                    s\<lparr>hgDiffCache :=
                        foldl (\<lambda>c (filePath, diffInfo). map_set filePath diffInfo c)
                          (hgDiffCache s) fetched\<rparr>);
          s2 = s1\<lparr>hgDiffCache :=
                    foldl (\<lambda>c fileToClear. map_delete fileToClear c)
                      (hgDiffCache s1) (hgDiffCacheFilesToClear s1)\<rparr>;
          s3 = s2\<lparr>hgDiffCacheFilesToClear := []\<rparr>;
          s4 = s3\<lparr>hgDiffCacheFilesUpdating :=
                    foldl (\<lambda>u pathToFetch. set_delete pathToFetch u)
                      (hgDiffCacheFilesUpdating s3) pathsToFetch\<rparr>
      in (pathsToDiffInfo, emit DidChangeStatuses s4))"

definition updateDiffInfo ::
  "Env \<Rightarrow> HgService \<Rightarrow> HgRepositoryClient \<Rightarrow> NuclideUri list \<Rightarrow>
   (NuclideUri, DiffInfo) jsmap option Settled \<times> HgRepositoryClient" where
  "updateDiffInfo env svc s filePaths =
     (case beginUpdateDiffInfo env s filePaths of
        (pathsToFetch, s1) \<Rightarrow>
          if length pathsToFetch = 0 then (Resolved (Some []), s1)
          else
            (case fetchDiffInfo svc (length (serviceCalls s1)) pathsToFetch of
               Rejected \<Rightarrow> (Rejected, callService (FetchDiffInfo pathsToFetch) s1)
             | Resolved pathsToDiffInfo \<Rightarrow>
                 (case completeUpdateDiffInfo pathsToFetch pathsToDiffInfo
                         (callService (FetchDiffInfo pathsToFetch) s1) of
                    (result, s2) \<Rightarrow> (Resolved result, s2))))"

subsection \<open>Reacting to changed files\<close>

definition refreshStatusesOfAllFilesInCache ::
  "Env \<Rightarrow> HgService \<Rightarrow> HgRepositoryClient \<Rightarrow> HgRepositoryClient" where
  "refreshStatusesOfAllFilesInCache env svc s =
     (let s1 = s\<lparr>hgStatusCache := []\<rparr>;
          s2 = s1\<lparr>modifiedDirectoryCache := []\<rparr>;
          pathsInDiffCache = map_keys (hgDiffCache s2);
          s3 = s2\<lparr>hgDiffCache := []\<rparr>;
          s4 = snd (updateStatuses env svc s3 [projectDirectory_getPath env]
                      (Some \<lparr>hgStatusOption = ONLY_NON_IGNORED\<rparr>))
      in if length pathsInDiffCache > 0 then snd (updateDiffInfo env svc s4 pathsInDiffCache)
         else s4)"

text \<open>
  Modelled from the spec: \<open>debounce\<close> and \<open>serializeAsyncCall\<close> of \<open>commons-node\<close>, which
  wrap \<open>_refreshStatusesOfAllFilesInCache\<close> into \<open>_serializedRefreshStatusesCache\<close>, are
  not among the sources. The specification (4.4) says that the armed refresh executes
  exactly once when the debounce window has elapsed; the model runs the wrapped method
  once, at the call, and leaves the delay out.
\<close>

definition serializedRefreshStatusesCache ::
  "Env \<Rightarrow> HgService \<Rightarrow> HgRepositoryClient \<Rightarrow> HgRepositoryClient" where
  "serializedRefreshStatusesCache env svc s = refreshStatusesOfAllFilesInCache env svc s"

definition updateChangedPaths ::
  "Env \<Rightarrow> HgService \<Rightarrow> HgRepositoryClient \<Rightarrow> NuclideUri list \<Rightarrow> HgRepositoryClient" where
  "updateChangedPaths env svc s changedPaths =
     (let relevantChangedPaths = filter (isPathRelevant env) changedPaths
      in if length relevantChangedPaths = 0 then s
         else if length relevantChangedPaths \<le> MAX_INDIVIDUAL_CHANGED_PATHS
         then
           let s1 = snd (updateStatuses env svc s relevantChangedPaths
                           (Some \<lparr>hgStatusOption = ALL_STATUSES\<rparr>))
           in snd (updateDiffInfo env svc s1
                     (filter (\<lambda>filePath. map_has (hgDiffCache s1) filePath)
                        relevantChangedPaths))
         else serializedRefreshStatusesCache env svc s)"

subsection \<open>Repository state at specific revisions\<close>

text \<open>
  The two methods return an \<open>Observable\<close>; the model subscribes to it at once, so that the
  value is delivered and, on a miss, stored. On a miss of the revision
  \<open>fetchFileContentAtRevision\<close> stores a new empty \<open>Map\<close> under the revision first; the
  fetched contents are then written into that \<open>Map\<close> object, which the cache entry still
  refers to, so the entry changes where it stands.
\<close>

definition lru_mutate :: "'k \<Rightarrow> ('v \<Rightarrow> 'v) \<Rightarrow> ('k, 'v) LRU \<Rightarrow> ('k, 'v) LRU" where
  "lru_mutate k f c =
     c\<lparr>lru_items := map (\<lambda>e. if fst e = k then (fst e, f (snd e)) else e) (lru_items c)\<rparr>"

definition fetchFileContentAtRevision ::
  "HgService \<Rightarrow> HgRepositoryClient \<Rightarrow> NuclideUri \<Rightarrow> string \<Rightarrow> string \<times> HgRepositoryClient" where
  "fetchFileContentAtRevision svc s filePath revision =
     (case lru_get (fileContentsAtRevisionIds s) revision of
        (found, c1) \<Rightarrow>
          let fileContentsAtRevision = (case found of None \<Rightarrow> [] | Some m \<Rightarrow> m);
              c2 = (case found of None \<Rightarrow> lru_set revision [] c1 | Some m \<Rightarrow> c1);
              s1 = s\<lparr>fileContentsAtRevisionIds := c2\<rparr>
          in (case map_get fileContentsAtRevision filePath of
                Some committedContents \<Rightarrow> (committedContents, s1)
              | None \<Rightarrow>
                  let contents =
                        service_fetchFileContentAtRevision svc (length (serviceCalls s1))
                          filePath revision;
                      s2 = callService (FetchFileContentAtRevision filePath revision) s1
                  in (contents,
                      s2\<lparr>fileContentsAtRevisionIds :=
                           lru_mutate revision (map_set filePath contents)
                             (fileContentsAtRevisionIds s2)\<rparr>)))"

definition fetchFilesChangedAtRevision ::
  "HgService \<Rightarrow> HgRepositoryClient \<Rightarrow> string \<Rightarrow> RevisionFileChanges \<times> HgRepositoryClient" where
  "fetchFilesChangedAtRevision svc s revision =
     (case lru_get (revisionIdToFileChanges s) revision of
        (found, c1) \<Rightarrow>
          let s1 = s\<lparr>revisionIdToFileChanges := c1\<rparr>
          in (case found of
                Some changes \<Rightarrow> (changes, s1)
              | None \<Rightarrow>
                  let fetchedChanges =
                        service_fetchFilesChangedAtRevision svc (length (serviceCalls s1)) revision;
                      s2 = callService (FetchFilesChangedAtRevision revision) s1
                  in (fetchedChanges,
                      s2\<lparr>revisionIdToFileChanges :=
                           lru_set revision fetchedChanges (revisionIdToFileChanges s2)\<rparr>)))"

subsection \<open>Commit and amend\<close>

definition clearClientCache :: "HgRepositoryClient \<Rightarrow> HgRepositoryClient" where
  "clearClientCache s =
     emit DidChangeStatuses ((s\<lparr>hgDiffCache := []\<rparr>)\<lparr>hgStatusCache := []\<rparr>)"

text \<open>
  \<open>commit\<close> and \<open>amend\<close> pass the call to the service and run \<open>_clearClientCache\<close> when
  the returned \<open>Observable\<close> finishes, whether it completes or fails.
\<close>

definition commit :: "string \<Rightarrow> HgRepositoryClient \<Rightarrow> HgRepositoryClient" where
  "commit message s = clearClientCache (callService (Commit message) s)"

definition amend :: "string option \<Rightarrow> HgRepositoryClient \<Rightarrow> HgRepositoryClient" where
  "amend message s = clearClientCache (callService (Amend message) s)"

subsection \<open>Notions used in the statements and proofs\<close>

text \<open>
  The test of the loop in \<open>_updateStatuses\<close> that decides whether a fetched status
  changes the cache, the effect of one fetched status on the status cache alone, and the
  path-level events the loop collects.
\<close>

definition statusChanged :: "StatusCodeIdValue option \<Rightarrow> StatusCodeIdValue \<Rightarrow> bool" where
  "statusChanged oldStatus newStatusId =
     ((oldStatus \<noteq> None \<and> oldStatus \<noteq> Some newStatusId) \<or> (oldStatus = None \<and> newStatusId \<noteq> CLEAN))"

definition statusCacheStep ::
  "(NuclideUri, StatusCodeIdValue) jsmap \<Rightarrow> NuclideUri \<times> StatusCodeIdValue \<Rightarrow> (NuclideUri, StatusCodeIdValue) jsmap" where
  "statusCacheStep cache entry =
     (if statusChanged (map_get cache (fst entry)) (snd entry)
      then (if snd entry = CLEAN then map_delete (fst entry) cache else map_set (fst entry) (snd entry) cache)
      else cache)"

fun changeEvents ::
  "(NuclideUri, StatusCodeIdValue) jsmap \<Rightarrow> (NuclideUri, StatusCodeIdValue) jsmap \<Rightarrow> StatusChangeEvent list" where
  "changeEvents cache [] = []"
| "changeEvents cache (e # r) =
     (if statusChanged (map_get cache (fst e)) (snd e) then [(fst e, StatusCodeIdToNumber (snd e))] else [])
     @ changeEvents (statusCacheStep cache e) r"

text \<open>
  The paths that \<open>_updateDiffInfo\<close> chooses to fetch and marks as updating: the paths
  of the project that are not marked yet, each once.
\<close>

fun newPathsToFetch :: "Env \<Rightarrow> NuclideUri jsset \<Rightarrow> NuclideUri list \<Rightarrow> NuclideUri list" where
  "newPathsToFetch env updating [] = []"
| "newPathsToFetch env updating (aPath # rest) =
     (if isPathRelevant env aPath \<and> aPath \<notin> set updating
      then aPath # newPathsToFetch env (updating @ [aPath]) rest
      else newPathsToFetch env updating rest)"

text \<open>
  The two refreshes as the specification (4.4) words them. The targeted refresh fetches
  the status of exactly the given paths with the all-statuses filter, then the diff info
  of those of them that are in the diff cache. The full refresh clears the status cache,
  the modified-directory index and the diff cache, fetches the status of the whole project
  with the only-non-ignored filter, and the diff info of every path that was in the diff
  cache.
\<close>

definition targetedRefresh ::
  "Env \<Rightarrow> HgService \<Rightarrow> HgRepositoryClient \<Rightarrow> NuclideUri list \<Rightarrow> HgRepositoryClient" where
  "targetedRefresh env svc s paths =
     (let s1 = snd (updateStatuses env svc s paths (Some \<lparr>hgStatusOption = ALL_STATUSES\<rparr>))
      in snd (updateDiffInfo env svc s1 (filter (\<lambda>p. map_has (hgDiffCache s) p) paths)))"

definition fullRefresh :: "Env \<Rightarrow> HgService \<Rightarrow> HgRepositoryClient \<Rightarrow> HgRepositoryClient" where
  "fullRefresh env svc s =
     (let cleared = s\<lparr>hgStatusCache := [], modifiedDirectoryCache := [], hgDiffCache := []\<rparr>;
          s1 = snd (updateStatuses env svc cleared [projectDirectory_getPath env]
                      (Some \<lparr>hgStatusOption = ONLY_NON_IGNORED\<rparr>))
      in snd (updateDiffInfo env svc s1 (map_keys (hgDiffCache s))))"

text \<open>The fields of the diff cache, which a status update leaves alone.\<close>

definition diffFrame :: "HgRepositoryClient \<Rightarrow> HgRepositoryClient \<Rightarrow> bool" where
  "diffFrame s s' =
     (hgDiffCache s' = hgDiffCache s \<and>
      hgDiffCacheFilesUpdating s' = hgDiffCacheFilesUpdating s \<and>
      hgDiffCacheFilesToClear s' = hgDiffCacheFilesToClear s)"


text \<open>
  A sequence of lookups in the two revision caches, what the caches hold for a revision
  and for a file at a revision, and the bound on their sizes.
\<close>

datatype RevisionLookup = FileContentAt NuclideUri string | FilesChangedAt string

fun lookupRevision :: "HgService \<Rightarrow> HgRepositoryClient \<Rightarrow> RevisionLookup \<Rightarrow> HgRepositoryClient" where
  "lookupRevision svc s (FileContentAt filePath revision) =
     snd (fetchFileContentAtRevision svc s filePath revision)"
| "lookupRevision svc s (FilesChangedAt revision) =
     snd (fetchFilesChangedAtRevision svc s revision)"

definition runLookups ::
  "HgService \<Rightarrow> HgRepositoryClient \<Rightarrow> RevisionLookup list \<Rightarrow> HgRepositoryClient" where
  "runLookups svc s lookups = foldl (lookupRevision svc) s lookups"

definition cachedChanges :: "HgRepositoryClient \<Rightarrow> string \<Rightarrow> RevisionFileChanges option" where
  "cachedChanges s revision = map_of (lru_items (revisionIdToFileChanges s)) revision"

definition cachedContents :: "HgRepositoryClient \<Rightarrow> NuclideUri \<Rightarrow> string \<Rightarrow> string option" where
  "cachedContents s filePath revision =
     (case map_of (lru_items (fileContentsAtRevisionIds s)) revision of
        None \<Rightarrow> None
      | Some fileContentsAtRevision \<Rightarrow> map_get fileContentsAtRevision filePath)"

definition lruBounded :: "nat \<Rightarrow> ('k, 'v) LRU \<Rightarrow> bool" where
  "lruBounded n c = (lru_max c = n \<and> length (lru_items c) \<le> n)"

definition revisionCachesBounded :: "HgRepositoryClient \<Rightarrow> bool" where
  "revisionCachesBounded s =
     (lruBounded 100 (revisionIdToFileChanges s) \<and> lruBounded 20 (fileContentsAtRevisionIds s))"

text \<open>
  The revisions that a sequence of lookups uses in each of the two caches, in the order of
  the lookups, and the same revisions without repetition, the most recently used first.
  A cache of capacity \<open>n\<close> holds the most recent keys when its keys are, in order, the first
  \<open>n\<close> of them.
\<close>

fun changesRevision :: "RevisionLookup \<Rightarrow> string list" where
  "changesRevision (FilesChangedAt revision) = [revision]"
| "changesRevision (FileContentAt filePath revision) = []"

fun contentsRevision :: "RevisionLookup \<Rightarrow> string list" where
  "contentsRevision (FilesChangedAt revision) = []"
| "contentsRevision (FileContentAt filePath revision) = [revision]"

definition changesRevisions :: "RevisionLookup list \<Rightarrow> string list" where
  "changesRevisions lookups = concat (map changesRevision lookups)"

definition contentsRevisions :: "RevisionLookup list \<Rightarrow> string list" where
  "contentsRevisions lookups = concat (map contentsRevision lookups)"

definition recentFirst :: "'k list \<Rightarrow> 'k list" where
  "recentFirst ks = rev (remdups ks)"

definition lruKeys :: "('k, 'v) LRU \<Rightarrow> 'k list" where
  "lruKeys c = map fst (lru_items c)"

definition lruHolds :: "nat \<Rightarrow> 'k list \<Rightarrow> ('k, 'v) LRU \<Rightarrow> bool" where
  "lruHolds n ks c = (lru_max c = n \<and> lruKeys c = take n (recentFirst ks))"

definition revisionKeysAre :: "HgRepositoryClient \<Rightarrow> RevisionLookup list \<Rightarrow> bool" where
  "revisionKeysAre s lookups =
     (lruHolds 100 (changesRevisions lookups) (revisionIdToFileChanges s) \<and>
      lruHolds 20 (contentsRevisions lookups) (fileContentsAtRevisionIds s))"

text \<open>What the three loops over the queried files have in common.\<close>

definition evictStep :: "(HgRepositoryClient \<Rightarrow> NuclideUri \<Rightarrow> HgRepositoryClient) \<Rightarrow> bool" where
  "evictStep f =
     (\<forall>s p. emitted (f s p) = emitted s \<and> serviceCalls (f s p) = serviceCalls s \<and>
        hgDiffCache (f s p) = hgDiffCache s \<and>
        set (hgStatusCache (f s p)) \<subseteq> set (hgStatusCache s) \<and>
        (\<forall>q. q \<noteq> p \<longrightarrow> map_of (hgStatusCache (f s p)) q = map_of (hgStatusCache s) q))"

text \<open>A sequence of runs of \<open>_updateStatuses\<close>, each with its paths and options.\<close>

definition runUpdates ::
  "Env \<Rightarrow> HgService \<Rightarrow> HgRepositoryClient \<Rightarrow>
   (NuclideUri list \<times> HgStatusCommandOptions option) list \<Rightarrow> HgRepositoryClient" where
  "runUpdates env svc s requests =
     foldl (\<lambda>s' request. snd (updateStatuses env svc s' (fst request) (snd request))) s requests"

subsection \<open>A concrete project\<close>

text \<open>
  An environment and states to run the methods on: the project directory is \<open>/p\<close>, its
  parent is the root directory, and the ancestor directories of a file are its prefixes
  that end with a separator and lie below the prefix to skip.
\<close>

fun dirPrefixes :: "string \<Rightarrow> string \<Rightarrow> string list" where
  "dirPrefixes seen [] = []"
| "dirPrefixes seen (c # cs) =
     (if c = CHR ''/'' then [seen @ [c]] else []) @ dirPrefixes (seen @ [c]) cs"

definition exampleNormalizeDir :: "string \<Rightarrow> string" where
  "exampleNormalizeDir d = (if d \<noteq> [] \<and> last d = CHR ''/'' then d else d @ ''/'')"

definition exampleEnv :: Env where
  "exampleEnv =
     \<lparr>projectDirectory_contains = (\<lambda>filePath. take 3 filePath = ''/p/'' \<and> length filePath > 3),
      projectDirectory_getPath = ''/p'',
      projectDirectory_getParent_getPath = ''/'',
      workingDirectory_getPath = ''/p'',
      normalizeDir = exampleNormalizeDir,
      parentDirectories =
        (\<lambda>filePath prefixToSkip.
           filter (\<lambda>d. length (exampleNormalizeDir prefixToSkip) < length d)
             (dirPrefixes [] filePath))\<rparr>"

text \<open>A backend whose answers are given by the number of the call.\<close>

definition exampleService ::
  "(nat \<Rightarrow> (NuclideUri, StatusCodeIdValue) jsmap) \<Rightarrow>
   (nat \<Rightarrow> (NuclideUri, DiffInfo) jsmap option Settled) \<Rightarrow> HgService" where
  "exampleService statuses diffs =
     \<lparr>fetchStatuses = (\<lambda>t paths options. statuses t),
      fetchDiffInfo = (\<lambda>t paths. diffs t),
      service_fetchFileContentAtRevision = (\<lambda>t filePath revision. revision @ '':'' @ filePath),
      service_fetchFilesChangedAtRevision = (\<lambda>t revision. [revision])\<rparr>"

definition exampleDiffInfo :: DiffInfo where
  "exampleDiffInfo =
     \<lparr>added = 2, deleted = 1,
      lineDiffs = [\<lparr>oldStart = 1, oldLines = 1, newStart = 1, newLines = 2\<rparr>]\<rparr>"

text \<open>A client with one modified file, its directory counted, and its diff cached.\<close>

definition exampleClient :: HgRepositoryClient where
  "exampleClient =
     constructor
       \<lparr>editorSubscriptions := [(''/p/a.txt'', EditorSubscription ''/p/a.txt'')],
        hgStatusCache := [(''/p/a.txt'', MODIFIED)],
        modifiedDirectoryCache := [(''/p/'', 1)],
        hgDiffCache := [(''/p/a.txt'', exampleDiffInfo)]\<rparr>"

text \<open>Backends and options for the concrete runs.\<close>

definition allStatuses :: "HgStatusCommandOptions option" where
  "allStatuses = Some \<lparr>hgStatusOption = ALL_STATUSES\<rparr>"

definition serviceCleanAdded :: HgService where
  "serviceCleanAdded =
     exampleService (\<lambda>t. [(''/p/a.txt'', CLEAN), (''/p/b.txt'', ADDED)]) (\<lambda>t. Resolved None)"

definition serviceNothing :: HgService where
  "serviceNothing = exampleService (\<lambda>t. []) (\<lambda>t. Resolved None)"

definition serviceModifiedThenClean :: HgService where
  "serviceModifiedThenClean =
     exampleService
       (\<lambda>t. if t = 0 then [(''/p/a.txt'', MODIFIED)] else [(''/p/a.txt'', CLEAN)])
       (\<lambda>t. Resolved None)"

definition clientWithModifiedFile :: HgRepositoryClient where
  "clientWithModifiedFile =
     runUpdates exampleEnv serviceModifiedThenClean constructor [([''/p/a.txt''], allStatuses)]"


text \<open>A backend whose diff fetch is rejected.\<close>

definition serviceRejecting :: HgService where
  "serviceRejecting = exampleService (\<lambda>t. []) (\<lambda>t. Rejected)"


definition serviceModifiedThenMissing :: HgService where
  "serviceModifiedThenMissing =
     exampleService
       (\<lambda>t. if t = 0 then [(''/p/a.txt'', MODIFIED)] else [(''/p/a.txt'', MISSING)])
       (\<lambda>t. Resolved None)"

definition serviceRestoredSibling :: HgService where
  "serviceRestoredSibling =
     exampleService
       (\<lambda>t. if t = 0 then [(''/p/a.txt'', MODIFIED), (''/p/b.txt'', MISSING)]
            else [(''/p/b.txt'', CLEAN)])
       (\<lambda>t. Resolved None)"




text \<open>Clients after lookups of revisions; the second has looked up 21 revisions.\<close>

definition revisionName :: "nat \<Rightarrow> string" where
  "revisionName n = CHR ''r'' # replicate n (CHR ''+'')"

definition clientAfterLookups :: HgRepositoryClient where
  "clientAfterLookups =
     runLookups serviceNothing constructor
       [FilesChangedAt ''r1'', FileContentAt ''/p/a.txt'' ''r1'']"

definition clientAfterManyLookups :: HgRepositoryClient where
  "clientAfterManyLookups =
     runLookups serviceNothing constructor
       (map (\<lambda>n. FileContentAt ''/p/a.txt'' (revisionName n)) [0..<21])"

text \<open>Lookups made after a first one: another file of revision \<open>r1\<close> and two other revisions.\<close>

definition laterLookups :: "RevisionLookup list" where
  "laterLookups =
     [FileContentAt ''/p/b.txt'' ''r1'', FileContentAt ''/p/a.txt'' ''r2'', FilesChangedAt ''r3'']"

section \<open>Properties\<close>

subsection \<open>Teardown is idempotent\<close>

lemma destroy_destroyed: "isDestroyed_field s \<Longrightarrow> destroy s = s"
  by (simp add: destroy_def)

lemma isDestroyed_field_destroy: "isDestroyed_field (destroy s)"
  by (simp add: destroy_def emit_def Let_def)

lemma destroy_twice: "destroy (destroy s) = destroy s"
  by (rule destroy_destroyed) (rule isDestroyed_field_destroy)

lemma destroy_funpow: "(destroy ^^ Suc n) s = destroy s"
  by (induction n) (simp_all add: destroy_twice)

text \<open>
  C8: \<open>destroy\<close> is idempotent. However often it is called, the client is as the first
  call left it: the second and later calls change no field, emit no further
  \<open>did-destroy\<close> event and dispose nothing again, and \<open>isDestroyed\<close> is true from the
  first call on. The first call on a live client emits the one \<open>did-destroy\<close> event and
  disposes every editor subscription and the subscriptions of the client once.
\<close>

theorem destroy_idempotent:
  "(destroy ^^ Suc n) s = destroy s \<and>
   isDestroyed ((destroy ^^ Suc n) s) \<and>
   emitted ((destroy ^^ Suc n) s) =
     (if isDestroyed s then emitted s
      else emitted s @ [(DidDestroy, (hgStatusCache s, modifiedDirectoryCache s, hgDiffCache s))]) \<and>
   disposed ((destroy ^^ Suc n) s) =
     (if isDestroyed s then disposed s
      else disposed s @ map snd (editorSubscriptions s) @ [Subscriptions])"
  unfolding destroy_funpow
  by (simp add: destroy_def isDestroyed_def emit_def cacheView_def Let_def)

theorem destroy_idempotent_witness:
  "(destroy ^^ Suc 2) exampleClient = destroy exampleClient \<and>
   isDestroyed ((destroy ^^ Suc 2) exampleClient) \<and>
   emitted ((destroy ^^ Suc 2) exampleClient) =
     [(DidDestroy, ([(''/p/a.txt'', MODIFIED)], [(''/p/'', 1)], [(''/p/a.txt'', exampleDiffInfo)]))] \<and>
   disposed ((destroy ^^ Suc 2) exampleClient) = [EditorSubscription ''/p/a.txt'', Subscriptions]"
proof -
  have e: "isDestroyed exampleClient = False" "emitted exampleClient = []"
    "disposed exampleClient = []" "hgStatusCache exampleClient = [(''/p/a.txt'', MODIFIED)]"
    "modifiedDirectoryCache exampleClient = [(''/p/'', 1)]"
    "hgDiffCache exampleClient = [(''/p/a.txt'', exampleDiffInfo)]"
    "map snd (editorSubscriptions exampleClient) = [EditorSubscription ''/p/a.txt'']"
    by (simp_all add: exampleClient_def constructor_def isDestroyed_def)
  show ?thesis
    by (rule destroy_idempotent [of 2 exampleClient, unfolded e if_False append_Nil append_Cons])
qed

subsection \<open>The cache-only getters on a missing path\<close>

text \<open>
  C10: for a \<open>null\<close> or \<open>undefined\<close> path every synchronous getter returns its default:
  \<open>getCachedPathStatus\<close> and \<open>getDirectoryStatus\<close> return \<open>CLEAN\<close>, \<open>getDiffStats\<close>
  returns no added and no deleted lines, \<open>getLineDiffs\<close> returns the empty array. The
  getters are functions of the client that return a value only: their bodies write to no
  field, and nothing in them can throw on this input.
\<close>

theorem getters_default_on_null:
  "getCachedPathStatus s None = NUM_CLEAN \<and>
   getDirectoryStatus env s None = NUM_CLEAN \<and>
   getDiffStats s None = \<lparr>stats_added = 0, stats_deleted = 0\<rparr> \<and>
   getLineDiffs s None = []"
  by (simp add: getCachedPathStatus_def getDirectoryStatus_def getDiffStats_def
      getLineDiffs_def)

theorem getters_default_on_null_witness:
  "getCachedPathStatus exampleClient None = NUM_CLEAN \<and>
   getDirectoryStatus exampleEnv exampleClient None = NUM_CLEAN \<and>
   getDiffStats exampleClient None = \<lparr>stats_added = 0, stats_deleted = 0\<rparr> \<and>
   getLineDiffs exampleClient None = [] \<and>
   getCachedPathStatus exampleClient (Some ''/p/a.txt'') = NUM_MODIFIED \<and>
   getDirectoryStatus exampleEnv exampleClient (Some ''/p'') = NUM_MODIFIED \<and>
   getDiffStats exampleClient (Some ''/p/a.txt'') = \<lparr>stats_added = 2, stats_deleted = 1\<rparr>"
  using getters_default_on_null [of exampleClient exampleEnv]
  by (simp add: getCachedPathStatus_def getDirectoryStatus_def getDiffStats_def falsy_def
      exampleClient_def constructor_def exampleEnv_def exampleNormalizeDir_def
      exampleDiffInfo_def map_get_def map_has_def)

subsection \<open>Containers and the loops of a status update\<close>

lemma map_of_map_set [simp]: "map_of (map_set k v m) = (map_of m)(k \<mapsto> v)"
  by (induction m) auto

lemma map_of_map_delete [simp]: "map_of (map_delete k m) = (map_of m)(k := None)"
  by (induction m) (auto simp: map_delete_def)

lemma set_map_delete: "set (map_delete k m) = {e \<in> set m. fst e \<noteq> k}"
  by (auto simp: map_delete_def)

lemma snd_set_map_set: "snd ` set (map_set k v m) \<subseteq> insert v (snd ` set m)"
  by (induction m) auto

lemma keys_map_set: "fst ` set (map_set k v m) = insert k (fst ` set m)"
  by (induction m) auto

lemma distinct_map_set: "distinct (map fst m) \<Longrightarrow> distinct (map fst (map_set k v m))"
  by (induction m) (auto simp: keys_map_set)

lemma distinct_map_delete: "distinct (map fst m) \<Longrightarrow> distinct (map fst (map_delete k m))"
  by (induction m) (auto simp: map_delete_def)

lemma set_set_delete [simp]: "set (set_delete x xs) = set xs - {x}"
  by (auto simp: set_delete_def)

lemma set_set_add [simp]: "set (set_add x xs) = insert x (set xs)"
  by (auto simp: set_add_def)

lemma set_foldl_set_add: "set (foldl (\<lambda>acc x. set_add x acc) acc xs) = set acc \<union> set xs"
  by (induction xs arbitrary: acc) auto

lemma set_set_new [simp]: "set (set_new xs) = set xs"
  by (simp add: set_new_def set_foldl_set_add)

lemma addAllParentDirectories_fields [simp]:
  "hgStatusCache (addAllParentDirectories env p s) = hgStatusCache s"
  "hgDiffCache (addAllParentDirectories env p s) = hgDiffCache s"
  "emitted (addAllParentDirectories env p s) = emitted s"
  "serviceCalls (addAllParentDirectories env p s) = serviceCalls s"
  by (simp_all add: addAllParentDirectories_def)

lemma removeAllParentDirectories_fields [simp]:
  "hgStatusCache (removeAllParentDirectories env p s) = hgStatusCache s"
  "hgDiffCache (removeAllParentDirectories env p s) = hgDiffCache s"
  "emitted (removeAllParentDirectories env p s) = emitted s"
  "serviceCalls (removeAllParentDirectories env p s) = serviceCalls s"
  by (simp_all add: removeAllParentDirectories_def)

lemma applyFetchedStatus_cache:
  "applyFetchedStatus env (s, evs, q) e = (s1, evs1, q1) \<Longrightarrow>
   hgStatusCache s1 = statusCacheStep (hgStatusCache s) e \<and>
   evs1 = evs @ (if statusChanged (map_get (hgStatusCache s) (fst e)) (snd e) then [(fst e, StatusCodeIdToNumber (snd e))] else []) \<and>
   q1 = set_delete (fst e) q \<and>
   emitted s1 = emitted s \<and> serviceCalls s1 = serviceCalls s \<and> hgDiffCache s1 = hgDiffCache s"
  by (cases e) (auto simp: applyFetchedStatus_def statusCacheStep_def statusChanged_def Let_def split: if_splits)


lemma loop_fold:
  "foldl (applyFetchedStatus env) (s, evs, q) r = (s1, evs1, q1) \<Longrightarrow>
   hgStatusCache s1 = foldl statusCacheStep (hgStatusCache s) r \<and>
   evs1 = evs @ changeEvents (hgStatusCache s) r \<and>
   set q1 = set q - fst ` set r \<and>
   emitted s1 = emitted s \<and> serviceCalls s1 = serviceCalls s \<and> hgDiffCache s1 = hgDiffCache s"
proof (induction r arbitrary: s evs q)
  case Nil
  then show ?case by simp
next
  case (Cons e r)
  obtain sa evsa qa where step: "applyFetchedStatus env (s, evs, q) e = (sa, evsa, qa)"
    by (cases "applyFetchedStatus env (s, evs, q) e") auto
  from Cons.prems have rest: "foldl (applyFetchedStatus env) (sa, evsa, qa) r = (s1, evs1, q1)"
    by (simp add: step)
  note a = applyFetchedStatus_cache [OF step]
  note b = Cons.IH [OF rest]
  show ?case using a b by auto
qed

lemma map_of_statusCacheStep_other:
  "fst e \<noteq> p \<Longrightarrow> map_of (statusCacheStep cache e) p = map_of cache p"
  by (simp add: statusCacheStep_def)

lemma map_of_fold_other:
  "p \<notin> fst ` set r \<Longrightarrow> map_of (foldl statusCacheStep cache r) p = map_of cache p"
  by (induction r arbitrary: cache) (auto simp: map_of_statusCacheStep_other)

lemma map_of_statusCacheStep_same:
  "map_of (statusCacheStep cache (p, n)) p =
     (if statusChanged (map_of cache p) n then (if n = CLEAN then None else Some n) else map_of cache p)"
  by (simp add: statusCacheStep_def map_get_def)

lemma map_of_fold_in:
  "distinct (map fst r) \<Longrightarrow> (p, n) \<in> set r \<Longrightarrow>
   map_of (foldl statusCacheStep cache r) p =
     (if statusChanged (map_of cache p) n then (if n = CLEAN then None else Some n) else map_of cache p)"
proof (induction r arbitrary: cache)
  case Nil
  then show ?case by simp
next
  case (Cons e r)
  show ?case
  proof (cases "e = (p, n)")
    case True
    with Cons.prems have "p \<notin> fst ` set r" by auto
    then show ?thesis using True
      by (simp add: map_of_fold_other map_of_statusCacheStep_same)
  next
    case False
    with Cons.prems have in_r: "(p, n) \<in> set r" and d: "distinct (map fst r)"
      by auto
    from in_r have "p \<in> fst ` set r" by force
    with Cons.prems have ne: "fst e \<noteq> p" by auto
    show ?thesis using Cons.IH [OF d in_r] ne by (simp add: map_of_statusCacheStep_other)
  qed
qed

lemma statusChanged_iff:
  "statusChanged old n \<longleftrightarrow>
   old \<noteq> (if statusChanged old n then (if n = CLEAN then None else Some n) else old)"
  by (auto simp: statusChanged_def)

lemma changeEvents_filter:
  "distinct (map fst r) \<Longrightarrow>
   changeEvents cache r =
     map (\<lambda>e. (fst e, StatusCodeIdToNumber (snd e)))
       (filter (\<lambda>e. statusChanged (map_of cache (fst e)) (snd e)) r)"
proof (induction r arbitrary: cache)
  case Nil
  then show ?case by simp
next
  case (Cons e r)
  then have d: "distinct (map fst r)" and ne: "fst e \<notin> fst ` set r" by auto
  have same: "\<And>x. x \<in> set r \<Longrightarrow> map_of (statusCacheStep cache e) (fst x) = map_of cache (fst x)"
  proof -
    fix x assume "x \<in> set r"
    then have "fst x \<in> fst ` set r" by (rule imageI)
    with ne have "fst e \<noteq> fst x" by metis
    then show "map_of (statusCacheStep cache e) (fst x) = map_of cache (fst x)"
      by (rule map_of_statusCacheStep_other)
  qed
  have "filter (\<lambda>x. statusChanged (map_of (statusCacheStep cache e) (fst x)) (snd x)) r =
        filter (\<lambda>x. statusChanged (map_of cache (fst x)) (snd x)) r"
    by (rule filter_cong) (simp_all add: same)
  then show ?case using Cons.IH [OF d, of "statusCacheStep cache e"]
    by (simp add: map_get_def)
qed


lemma emit_fields [simp]:
  "hgStatusCache (emit e s) = hgStatusCache s"
  "modifiedDirectoryCache (emit e s) = modifiedDirectoryCache s"
  "hgDiffCache (emit e s) = hgDiffCache s"
  "serviceCalls (emit e s) = serviceCalls s"
  "hgDiffCacheFilesUpdating (emit e s) = hgDiffCacheFilesUpdating s"
  "hgDiffCacheFilesToClear (emit e s) = hgDiffCacheFilesToClear s"
  "emitted (emit e s) = emitted s @ [(e, cacheView s)]"
  "cacheView (emit e s) = cacheView s"
  by (simp_all add: emit_def cacheView_def)

lemma callService_fields [simp]:
  "hgStatusCache (callService c s) = hgStatusCache s"
  "modifiedDirectoryCache (callService c s) = modifiedDirectoryCache s"
  "hgDiffCache (callService c s) = hgDiffCache s"
  "emitted (callService c s) = emitted s"
  "hgDiffCacheFilesUpdating (callService c s) = hgDiffCacheFilesUpdating s"
  "hgDiffCacheFilesToClear (callService c s) = hgDiffCacheFilesToClear s"
  "serviceCalls (callService c s) = serviceCalls s @ [c]"
  "cacheView (callService c s) = cacheView s"
  by (simp_all add: callService_def cacheView_def)

lemma emit_path_events:
  "foldl (\<lambda>s' ev. emit (DidChangeStatus (fst ev) (snd ev)) s') s evs = s' \<Longrightarrow>
   cacheView s' = cacheView s \<and> hgStatusCache s' = hgStatusCache s \<and>
   hgDiffCache s' = hgDiffCache s \<and> serviceCalls s' = serviceCalls s \<and>
   emitted s' = emitted s @ map (\<lambda>ev. (DidChangeStatus (fst ev) (snd ev), cacheView s)) evs"
proof (induction evs arbitrary: s)
  case Nil
  then show ?case by simp
next
  case (Cons ev evs)
  from Cons.prems Cons.IH [of "emit (DidChangeStatus (fst ev) (snd ev)) s"]
  show ?case by simp
qed

lemma emitStatusChangeEvents_result:
  "emitStatusChangeEvents evs s = s' \<Longrightarrow>
   cacheView s' = cacheView s \<and> hgStatusCache s' = hgStatusCache s \<and>
   hgDiffCache s' = hgDiffCache s \<and> serviceCalls s' = serviceCalls s \<and>
   emitted s' =
     emitted s @ map (\<lambda>ev. (DidChangeStatus (fst ev) (snd ev), cacheView s)) evs
       @ [(DidChangeStatuses, cacheView s)]"
  using emit_path_events [OF refl, of s evs]
  by (auto simp: emitStatusChangeEvents_def)

lemma evictStep_foldl:
  "evictStep f \<Longrightarrow>
   emitted (foldl f s ps) = emitted s \<and> serviceCalls (foldl f s ps) = serviceCalls s \<and>
   hgDiffCache (foldl f s ps) = hgDiffCache s \<and>
   set (hgStatusCache (foldl f s ps)) \<subseteq> set (hgStatusCache s) \<and>
   (\<forall>q. q \<notin> set ps \<longrightarrow> map_of (hgStatusCache (foldl f s ps)) q = map_of (hgStatusCache s) q)"
proof (induction ps arbitrary: s)
  case Nil
  then show ?case by simp
next
  case (Cons p ps)
  from Cons.prems have one:
    "emitted (f s p) = emitted s" "serviceCalls (f s p) = serviceCalls s"
    "hgDiffCache (f s p) = hgDiffCache s"
    "set (hgStatusCache (f s p)) \<subseteq> set (hgStatusCache s)"
    "\<And>q. q \<noteq> p \<Longrightarrow> map_of (hgStatusCache (f s p)) q = map_of (hgStatusCache s) q"
    unfolding evictStep_def by blast+
  from Cons.IH [OF Cons.prems, of "f s p"] one show ?case by auto
qed

lemma evictStep_onlyIgnored: "evictStep evictOnlyIgnored"
  by (auto simp: evictStep_def evictOnlyIgnored_def set_map_delete)

lemma evictStep_allStatuses: "evictStep (evictAllStatuses env)"
  by (auto simp: evictStep_def evictAllStatuses_def Let_def set_map_delete)

lemma evictStep_nonIgnored: "evictStep (evictNonIgnored env)"
  by (auto simp: evictStep_def evictNonIgnored_def Let_def set_map_delete)

lemma evictQueriedFiles_result:
  "emitted (evictQueriedFiles env options q s) = emitted s \<and>
   serviceCalls (evictQueriedFiles env options q s) = serviceCalls s \<and>
   hgDiffCache (evictQueriedFiles env options q s) = hgDiffCache s \<and>
   set (hgStatusCache (evictQueriedFiles env options q s)) \<subseteq> set (hgStatusCache s) \<and>
   (\<forall>p. p \<notin> set q \<longrightarrow>
      map_of (hgStatusCache (evictQueriedFiles env options q s)) p = map_of (hgStatusCache s) p)"
  unfolding evictQueriedFiles_def
  using evictStep_foldl [OF evictStep_onlyIgnored, of s q]
    evictStep_foldl [OF evictStep_allStatuses, of env s q]
    evictStep_foldl [OF evictStep_nonIgnored, of env s q]
  by (simp split: option.split HgStatusOptionValue.split)


lemma applyStatuses_result:
  assumes run: "applyStatuses env options pathsInRepo r s = s'"
  shows "serviceCalls s' = serviceCalls s"
    and "hgDiffCache s' = hgDiffCache s"
    and "set (hgStatusCache s') \<subseteq> set (foldl statusCacheStep (hgStatusCache s) r)"
    and "\<And>p. p \<in> fst ` set r \<Longrightarrow>
           map_of (hgStatusCache s') p = map_of (foldl statusCacheStep (hgStatusCache s) r) p"
    and "\<And>p. p \<notin> set pathsInRepo \<Longrightarrow>
           map_of (hgStatusCache s') p = map_of (foldl statusCacheStep (hgStatusCache s) r) p"
    and "emitted s' =
           emitted s @
           map (\<lambda>ev. (DidChangeStatus (fst ev) (snd ev), cacheView s'))
             (changeEvents (hgStatusCache s) r) @
           [(DidChangeStatuses, cacheView s')]"
proof -
  obtain s1 evs q where loop:
    "foldl (applyFetchedStatus env) (s, [], set_new pathsInRepo) r = (s1, evs, q)"
    by (cases "foldl (applyFetchedStatus env) (s, [], set_new pathsInRepo) r") auto
  note l = loop_fold [OF loop]
  define s2 where "s2 = evictQueriedFiles env options q s1"
  note e = evictQueriedFiles_result [of env options q s1, folded s2_def]
  from run loop have s': "s' = emitStatusChangeEvents evs s2"
    by (simp add: applyStatuses_def s2_def)
  note m = emitStatusChangeEvents_result [OF s' [symmetric]]
  show "serviceCalls s' = serviceCalls s" using l e m by simp
  show "hgDiffCache s' = hgDiffCache s" using l e m by simp
  show "set (hgStatusCache s') \<subseteq> set (foldl statusCacheStep (hgStatusCache s) r)"
    using l e m by simp
  show "map_of (hgStatusCache s') p = map_of (foldl statusCacheStep (hgStatusCache s) r) p"
    if "p \<in> fst ` set r" for p
  proof -
    from that l have "p \<notin> set q" by simp
    then show ?thesis using l e m by simp
  qed
  show "map_of (hgStatusCache s') p = map_of (foldl statusCacheStep (hgStatusCache s) r) p"
    if "p \<notin> set pathsInRepo" for p
  proof -
    from that l have "p \<notin> set q" by simp
    then show ?thesis using l e m by simp
  qed
  show "emitted s' =
           emitted s @
           map (\<lambda>ev. (DidChangeStatus (fst ev) (snd ev), cacheView s'))
             (changeEvents (hgStatusCache s) r) @
           [(DidChangeStatuses, cacheView s')]"
    using l e m by simp
qed

lemma updateStatuses_none:
  "filter (isPathRelevant env) filePaths = [] \<Longrightarrow>
   updateStatuses env svc s filePaths options = ([], s)"
  by (simp add: updateStatuses_def)

lemma updateStatuses_some:
  "filter (isPathRelevant env) filePaths \<noteq> [] \<Longrightarrow>
   updateStatuses env svc s filePaths options =
     (fetchStatuses svc (length (serviceCalls s)) (filter (isPathRelevant env) filePaths) options,
      applyStatuses env options (filter (isPathRelevant env) filePaths)
        (fetchStatuses svc (length (serviceCalls s)) (filter (isPathRelevant env) filePaths) options)
        (callService (FetchStatuses (filter (isPathRelevant env) filePaths) options) s))"
  by (simp add: updateStatuses_def Let_def)

subsection \<open>Events of a status update\<close>

text \<open>
  C2, as the code has it: a run of \<open>_updateStatuses\<close> with no path of the project
  returns at once, with no backend call, no change and no event. Any other run emits a
  path-level \<open>did-change-status\<close> event, carrying the fetched status, for exactly those
  paths of the backend's answer whose cached status differs before and after the run, in
  the order of the answer; a queried path that the answer does not name gets no event, even
  when the run evicts it. Exactly one coarse \<open>did-change-statuses\<close> event follows, and
  every event of the run is emitted when the caches are already as the run leaves them.
  The answer is a \<open>Map\<close>, so its keys are distinct.
\<close>

theorem updateStatuses_events:
  assumes run: "updateStatuses env svc s filePaths options = (r, s')"
    and keys: "distinct (map fst r)"
  shows "if filter (isPathRelevant env) filePaths = []
         then r = [] \<and> s' = s
         else emitted s' =
                emitted s @
                map (\<lambda>e. (DidChangeStatus (fst e) (StatusCodeIdToNumber (snd e)), cacheView s'))
                  (filter (\<lambda>e. map_get (hgStatusCache s) (fst e) \<noteq> map_get (hgStatusCache s') (fst e)) r) @
                [(DidChangeStatuses, cacheView s')]"
proof (cases "filter (isPathRelevant env) filePaths = []")
  case True
  with run show ?thesis by (simp add: updateStatuses_none)
next
  case False
  define ps where "ps = filter (isPathRelevant env) filePaths"
  define s0 where "s0 = callService (FetchStatuses ps options) s"
  from run False have r: "r = fetchStatuses svc (length (serviceCalls s)) ps options"
    by (simp add: updateStatuses_some ps_def)
  from run False have s': "applyStatuses env options ps r s0 = s'"
    unfolding r ps_def s0_def by (simp add: updateStatuses_some)
  note a = applyStatuses_result [OF s']
  have c0: "hgStatusCache s0 = hgStatusCache s" by (simp add: s0_def)
  have final: "map_of (hgStatusCache s') (fst e) =
      (if statusChanged (map_of (hgStatusCache s) (fst e)) (snd e)
       then (if snd e = CLEAN then None else Some (snd e))
       else map_of (hgStatusCache s) (fst e))" if "e \<in> set r" for e
  proof -
    from that have "fst e \<in> fst ` set r" by (rule imageI)
    then have "map_of (hgStatusCache s') (fst e) =
        map_of (foldl statusCacheStep (hgStatusCache s0) r) (fst e)" by (rule a(4))
    also have "\<dots> = (if statusChanged (map_of (hgStatusCache s0) (fst e)) (snd e)
       then (if snd e = CLEAN then None else Some (snd e))
       else map_of (hgStatusCache s0) (fst e))"
      using map_of_fold_in [OF keys, of "fst e" "snd e"] that by simp
    finally show ?thesis by (simp add: c0)
  qed
  have "filter (\<lambda>e. statusChanged (map_of (hgStatusCache s) (fst e)) (snd e)) r =
        filter (\<lambda>e. map_get (hgStatusCache s) (fst e) \<noteq> map_get (hgStatusCache s') (fst e)) r"
  proof (rule filter_cong [OF refl])
    fix e assume "e \<in> set r"
    from final [OF this] show "statusChanged (map_of (hgStatusCache s) (fst e)) (snd e) =
        (map_get (hgStatusCache s) (fst e) \<noteq> map_get (hgStatusCache s') (fst e))"
      by (auto simp: map_get_def statusChanged_def split: if_splits)
  qed
  then have "changeEvents (hgStatusCache s0) r =
      map (\<lambda>e. (fst e, StatusCodeIdToNumber (snd e)))
        (filter (\<lambda>e. map_get (hgStatusCache s) (fst e) \<noteq> map_get (hgStatusCache s') (fst e)) r)"
    by (simp add: changeEvents_filter [OF keys] c0)
  with a(6) False show ?thesis by (simp add: s0_def comp_def)
qed

theorem updateStatuses_events_witness:
  "distinct (map fst (fst (updateStatuses exampleEnv serviceCleanAdded exampleClient
      [''/p/a.txt'', ''/p/b.txt'', ''/q/c.txt''] allStatuses))) \<and>
   emitted (snd (updateStatuses exampleEnv serviceCleanAdded exampleClient
      [''/p/a.txt'', ''/p/b.txt'', ''/q/c.txt''] allStatuses)) =
     [(DidChangeStatus ''/p/a.txt'' NUM_CLEAN,
       [(''/p/b.txt'', ADDED)], [], [(''/p/a.txt'', exampleDiffInfo)]),
      (DidChangeStatus ''/p/b.txt'' NUM_ADDED,
       [(''/p/b.txt'', ADDED)], [], [(''/p/a.txt'', exampleDiffInfo)]),
      (DidChangeStatuses,
       [(''/p/b.txt'', ADDED)], [], [(''/p/a.txt'', exampleDiffInfo)])]"
proof -
  define r where "r = fst (updateStatuses exampleEnv serviceCleanAdded exampleClient
      [''/p/a.txt'', ''/p/b.txt'', ''/q/c.txt''] allStatuses)"
  define s' where "s' = snd (updateStatuses exampleEnv serviceCleanAdded exampleClient
      [''/p/a.txt'', ''/p/b.txt'', ''/q/c.txt''] allStatuses)"
  have run: "updateStatuses exampleEnv serviceCleanAdded exampleClient
      [''/p/a.txt'', ''/p/b.txt'', ''/q/c.txt''] allStatuses = (r, s')"
    by (simp add: r_def s'_def)
  have r: "r = [(''/p/a.txt'', CLEAN), (''/p/b.txt'', ADDED)]"
    unfolding r_def by code_simp
  have keys: "distinct (map fst r)" unfolding r by simp
  have rel: "filter (isPathRelevant exampleEnv) [''/p/a.txt'', ''/p/b.txt'', ''/q/c.txt'']
      = [''/p/a.txt'', ''/p/b.txt'']" by code_simp
  have before: "hgStatusCache exampleClient = [(''/p/a.txt'', MODIFIED)]" "emitted exampleClient = []"
    by (simp_all add: exampleClient_def constructor_def)
  have after: "cacheView s' = ([(''/p/b.txt'', ADDED)], [], [(''/p/a.txt'', exampleDiffInfo)])"
    "hgStatusCache s' = [(''/p/b.txt'', ADDED)]"
    unfolding s'_def by code_simp+
  from updateStatuses_events [OF run keys, unfolded rel]
  have "emitted s' =
      emitted exampleClient @
      map (\<lambda>e. (DidChangeStatus (fst e) (StatusCodeIdToNumber (snd e)), cacheView s'))
        (filter (\<lambda>e. map_get (hgStatusCache exampleClient) (fst e) \<noteq>
                     map_get (hgStatusCache s') (fst e)) r) @
      [(DidChangeStatuses, cacheView s')]"
    by simp
  then show ?thesis
    unfolding r_def [symmetric] s'_def [symmetric]
    by (simp add: r before after map_get_def)
qed

theorem updateStatuses_events_counterexample:
  "map_get (hgStatusCache exampleClient) ''/p/a.txt'' = Some MODIFIED \<and>
   map_get (hgStatusCache (snd (updateStatuses exampleEnv serviceNothing exampleClient
      [''/p/a.txt''] allStatuses))) ''/p/a.txt'' = None \<and>
   map fst (emitted (snd (updateStatuses exampleEnv serviceNothing exampleClient
      [''/p/a.txt''] allStatuses))) = [DidChangeStatuses] \<and>
   emitted (snd (updateStatuses exampleEnv serviceNothing exampleClient
      [''/q/c.txt''] allStatuses)) = []"
  by code_simp

subsection \<open>Clean paths are not cached\<close>

lemma statusCacheStep_values:
  "snd ` set (statusCacheStep cache e) \<subseteq> snd ` set cache \<union> ({snd e} - {CLEAN})"
  using snd_set_map_set [of "fst e" "snd e" cache]
  by (auto simp: statusCacheStep_def set_map_delete)

lemma statusCacheStep_no_clean:
  "CLEAN \<notin> snd ` set cache \<Longrightarrow> CLEAN \<notin> snd ` set (statusCacheStep cache e)"
  using statusCacheStep_values [of cache e] by auto

lemma fold_statusCacheStep_no_clean:
  "CLEAN \<notin> snd ` set cache \<Longrightarrow> CLEAN \<notin> snd ` set (foldl statusCacheStep cache r)"
  by (induction r arbitrary: cache) (simp_all add: statusCacheStep_no_clean)

lemma updateStatuses_no_clean:
  assumes "CLEAN \<notin> snd ` set (hgStatusCache s)"
  shows "CLEAN \<notin> snd ` set (hgStatusCache (snd (updateStatuses env svc s filePaths options)))"
proof (cases "filter (isPathRelevant env) filePaths = []")
  case True
  with assms show ?thesis by (simp add: updateStatuses_none)
next
  case False
  define ps where "ps = filter (isPathRelevant env) filePaths"
  define r where "r = fetchStatuses svc (length (serviceCalls s)) ps options"
  define s0 where "s0 = callService (FetchStatuses ps options) s"
  have "set (hgStatusCache (applyStatuses env options ps r s0))
          \<subseteq> set (foldl statusCacheStep (hgStatusCache s0) r)"
    by (rule applyStatuses_result(3) [OF refl])
  moreover have "CLEAN \<notin> snd ` set (foldl statusCacheStep (hgStatusCache s0) r)"
    using assms by (intro fold_statusCacheStep_no_clean) (simp add: s0_def)
  ultimately have "CLEAN \<notin> snd ` set (hgStatusCache (applyStatuses env options ps r s0))"
    by blast
  with False show ?thesis by (simp add: updateStatuses_some ps_def r_def s0_def)
qed

lemma runUpdates_no_clean:
  "CLEAN \<notin> snd ` set (hgStatusCache s) \<Longrightarrow>
   CLEAN \<notin> snd ` set (hgStatusCache (runUpdates env svc s requests))"
  unfolding runUpdates_def
  by (induction requests arbitrary: s) (simp_all add: updateStatuses_no_clean)

lemma map_of_not_clean:
  "CLEAN \<notin> snd ` set cache \<Longrightarrow> map_of cache p \<noteq> Some CLEAN"
proof
  assume a: "CLEAN \<notin> snd ` set cache" and b: "map_of cache p = Some CLEAN"
  from b have "(p, CLEAN) \<in> set cache" by (rule map_of_SomeD)
  then have "snd (p, CLEAN) \<in> snd ` set cache" by (rule imageI)
  with a show False by simp
qed


text \<open>
  C4: after any sequence of runs of \<open>_updateStatuses\<close> on a new client, one more run
  leaves no \<open>CLEAN\<close> status in the status cache, and every path that the backend
  reported as \<open>CLEAN\<close> in that run is not a key of the cache: an entry it had is deleted,
  none is created, and \<open>getCachedPathStatus\<close> answers \<open>CLEAN\<close> for it.
\<close>

theorem clean_never_cached:
  assumes reached: "s = runUpdates env svc constructor requests"
    and run: "updateStatuses env svc s filePaths options = (r, s')"
    and keys: "distinct (map fst r)"
  shows "CLEAN \<notin> snd ` set (hgStatusCache s') \<and>
         (\<forall>p. (p, CLEAN) \<in> set r \<longrightarrow>
            \<not> map_has (hgStatusCache s') p \<and> getCachedPathStatus s' (Some p) = NUM_CLEAN)"
proof -
  have inv: "CLEAN \<notin> snd ` set (hgStatusCache s)"
    unfolding reached by (rule runUpdates_no_clean) (simp add: constructor_def)
  from updateStatuses_no_clean [OF inv, of env svc filePaths options] run
  have inv': "CLEAN \<notin> snd ` set (hgStatusCache s')" by simp
  have gone: "map_of (hgStatusCache s') p = None" if mem: "(p, CLEAN) \<in> set r" for p
  proof -
    from mem run have ne: "filter (isPathRelevant env) filePaths \<noteq> []"
      by (auto simp: updateStatuses_none)
    define ps where "ps = filter (isPathRelevant env) filePaths"
    define s0 where "s0 = callService (FetchStatuses ps options) s"
    from run ne have r: "r = fetchStatuses svc (length (serviceCalls s)) ps options"
      by (simp add: updateStatuses_some ps_def)
    from run ne have s': "applyStatuses env options ps r s0 = s'"
      unfolding r ps_def s0_def by (simp add: updateStatuses_some)
    from mem have "p \<in> fst ` set r" by force
    then have "map_of (hgStatusCache s') p = map_of (foldl statusCacheStep (hgStatusCache s0) r) p"
      by (rule applyStatuses_result(4) [OF s'])
    also have "\<dots> = (if statusChanged (map_of (hgStatusCache s) p) CLEAN then None
                     else map_of (hgStatusCache s) p)"
      using map_of_fold_in [OF keys mem, of "hgStatusCache s0"] by (simp add: s0_def)
    also have "\<dots> = None"
      using map_of_not_clean [OF inv, of p] by (auto simp: statusChanged_def)
    finally show ?thesis .
  qed
  show ?thesis
    using inv' gone
    by (auto simp: map_has_def getCachedPathStatus_def map_get_def falsy_def)
qed

theorem clean_never_cached_witness:
  "map_has (hgStatusCache clientWithModifiedFile) ''/p/a.txt'' \<and>
   fst (updateStatuses exampleEnv serviceModifiedThenClean clientWithModifiedFile
          [''/p/a.txt''] allStatuses) = [(''/p/a.txt'', CLEAN)] \<and>
   CLEAN \<notin> snd ` set (hgStatusCache (snd (updateStatuses exampleEnv serviceModifiedThenClean
          clientWithModifiedFile [''/p/a.txt''] allStatuses))) \<and>
   \<not> map_has (hgStatusCache (snd (updateStatuses exampleEnv serviceModifiedThenClean
          clientWithModifiedFile [''/p/a.txt''] allStatuses))) ''/p/a.txt'' \<and>
   getCachedPathStatus (snd (updateStatuses exampleEnv serviceModifiedThenClean
          clientWithModifiedFile [''/p/a.txt''] allStatuses)) (Some ''/p/a.txt'') = NUM_CLEAN"
proof -
  define r where "r = fst (updateStatuses exampleEnv serviceModifiedThenClean
      clientWithModifiedFile [''/p/a.txt''] allStatuses)"
  define s' where "s' = snd (updateStatuses exampleEnv serviceModifiedThenClean
      clientWithModifiedFile [''/p/a.txt''] allStatuses)"
  have run: "updateStatuses exampleEnv serviceModifiedThenClean clientWithModifiedFile
      [''/p/a.txt''] allStatuses = (r, s')"
    by (simp add: r_def s'_def)
  have r: "r = [(''/p/a.txt'', CLEAN)]" unfolding r_def by code_simp
  have keys: "distinct (map fst r)" unfolding r by simp
  have before: "map_has (hgStatusCache clientWithModifiedFile) ''/p/a.txt''" by code_simp
  from clean_never_cached [OF clientWithModifiedFile_def run keys]
  have "CLEAN \<notin> snd ` set (hgStatusCache s') \<and>
        \<not> map_has (hgStatusCache s') ''/p/a.txt'' \<and>
        getCachedPathStatus s' (Some ''/p/a.txt'') = NUM_CLEAN"
    by (simp add: r)
  with before r show ?thesis unfolding r_def s'_def by simp
qed

subsection \<open>A failed diff fetch\<close>

lemma choosePathToFetch_fold:
  "foldl (choosePathToFetch env) (updating, pathsToFetch) filePaths =
     (updating @ newPathsToFetch env updating filePaths,
      pathsToFetch @ newPathsToFetch env updating filePaths)"
  by (induction filePaths arbitrary: updating pathsToFetch)
     (simp_all add: choosePathToFetch_def set_has_def set_add_def)


lemma beginUpdateDiffInfo_result:
  "beginUpdateDiffInfo env s filePaths =
     (newPathsToFetch env (hgDiffCacheFilesUpdating s) filePaths,
      s\<lparr>hgDiffCacheFilesUpdating :=
          hgDiffCacheFilesUpdating s @ newPathsToFetch env (hgDiffCacheFilesUpdating s) filePaths\<rparr>)"
  by (simp add: beginUpdateDiffInfo_def choosePathToFetch_fold)







text \<open>
  What the method does when the backend's promise is rejected: the method's promise is
  rejected as well, the diff cache and the queue of removals are untouched, no event is
  emitted, and the markers of the batch stay set, so that later requests for its paths are
  dropped.
\<close>

lemma updateDiffInfo_rejection:
  assumes batch: "beginUpdateDiffInfo env s filePaths = (pathsToFetch, s1)"
    and some: "pathsToFetch \<noteq> []"
    and rejected: "fetchDiffInfo svc (length (serviceCalls s)) pathsToFetch = Rejected"
    and run: "updateDiffInfo env svc s filePaths = (result, s')"
  shows "result = Rejected \<and>
         hgDiffCache s' = hgDiffCache s \<and>
         hgDiffCacheFilesToClear s' = hgDiffCacheFilesToClear s \<and>
         hgDiffCacheFilesUpdating s' = hgDiffCacheFilesUpdating s @ pathsToFetch \<and>
         emitted s' = emitted s \<and>
         (\<forall>p\<in>set pathsToFetch. fst (beginUpdateDiffInfo env s' [p]) = [])"
proof -
  from batch have s1: "s1 = s\<lparr>hgDiffCacheFilesUpdating := hgDiffCacheFilesUpdating s @ pathsToFetch\<rparr>"
    by (auto simp: beginUpdateDiffInfo_result)
  have calls1: "serviceCalls s1 = serviceCalls s" by (simp add: s1)
  from run batch some rejected
  have "result = Rejected" and "s' = callService (FetchDiffInfo pathsToFetch) s1"
    by (auto simp: updateDiffInfo_def calls1)
  then show ?thesis by (simp add: s1 beginUpdateDiffInfo_result)
qed

lemma updateDiffInfo_rejection_example:
  "fst (updateDiffInfo exampleEnv serviceRejecting exampleClient [''/p/a.txt'']) = Rejected \<and>
   hgDiffCacheFilesUpdating
     (snd (updateDiffInfo exampleEnv serviceRejecting exampleClient [''/p/a.txt''])) =
     [''/p/a.txt''] \<and>
   fst (beginUpdateDiffInfo exampleEnv
          (snd (updateDiffInfo exampleEnv serviceRejecting exampleClient [''/p/a.txt'']))
          [''/p/a.txt'']) = []"
  by code_simp

subsection \<open>The modified-directory index\<close>

text \<open>
  C5 does not hold of the code. First run: \<open>/p/a.txt\<close> is fetched as \<open>MODIFIED\<close> and
  then as \<open>MISSING\<close>; the loop of \<open>_updateStatuses\<close> stores the new status and leaves
  the directory counts alone, so \<open>/p\<close> is still reported \<open>MODIFIED\<close> when no cached path
  is. Second run: \<open>/p/a.txt\<close> is \<open>MODIFIED\<close> and \<open>/p/b.txt\<close> is \<open>MISSING\<close>, then
  \<open>/p/b.txt\<close> is fetched as \<open>CLEAN\<close>; the loop decrements the directories of
  \<open>/p/b.txt\<close>, which was never counted, so \<open>/p\<close> is reported \<open>CLEAN\<close> while
  \<open>/p/a.txt\<close> is still cached as \<open>MODIFIED\<close>.
\<close>

theorem directory_index_out_of_step:
  "hgStatusCache
     (runUpdates exampleEnv serviceModifiedThenMissing constructor
        [([''/p/a.txt''], allStatuses), ([''/p/a.txt''], allStatuses)]) =
     [(''/p/a.txt'', MISSING)] \<and>
   getDirectoryStatus exampleEnv
     (runUpdates exampleEnv serviceModifiedThenMissing constructor
        [([''/p/a.txt''], allStatuses), ([''/p/a.txt''], allStatuses)])
     (Some ''/p'') = NUM_MODIFIED \<and>
   hgStatusCache
     (runUpdates exampleEnv serviceRestoredSibling constructor
        [([''/p/a.txt'', ''/p/b.txt''], allStatuses), ([''/p/b.txt''], allStatuses)]) =
     [(''/p/a.txt'', MODIFIED)] \<and>
   getDirectoryStatus exampleEnv
     (runUpdates exampleEnv serviceRestoredSibling constructor
        [([''/p/a.txt'', ''/p/b.txt''], allStatuses), ([''/p/b.txt''], allStatuses)])
     (Some ''/p'') = NUM_CLEAN"
  by code_simp

subsection \<open>Commit and amend\<close>

text \<open>
  C7 does not hold of the code. \<open>_clearClientCache\<close> resets the status cache and the diff
  cache and emits the coarse event, but leaves the modified-directory index as it is: after
  a commit or an amend the directory \<open>/p\<close> is still reported \<open>MODIFIED\<close>. The full
  refresh, \<open>_refreshStatusesOfAllFilesInCache\<close>, resets all three.
\<close>

theorem commit_keeps_directory_index:
  "modifiedDirectoryCache (commit message s) = modifiedDirectoryCache s \<and>
   modifiedDirectoryCache (amend amendMessage s) = modifiedDirectoryCache s \<and>
   hgStatusCache (commit message s) = [] \<and>
   hgDiffCache (commit message s) = [] \<and>
   emitted (commit message s) =
     emitted s @ [(DidChangeStatuses, ([], modifiedDirectoryCache s, []))] \<and>
   hgStatusCache clientWithModifiedFile = [(''/p/a.txt'', MODIFIED)] \<and>
   modifiedDirectoryCache clientWithModifiedFile = [(''/p/'', 1)] \<and>
   hgStatusCache (commit ''message'' clientWithModifiedFile) = [] \<and>
   modifiedDirectoryCache (commit ''message'' clientWithModifiedFile) = [(''/p/'', 1)] \<and>
   getDirectoryStatus exampleEnv (commit ''message'' clientWithModifiedFile) (Some ''/p'') =
     NUM_MODIFIED \<and>
   modifiedDirectoryCache
     (refreshStatusesOfAllFilesInCache exampleEnv serviceNothing clientWithModifiedFile) = []"
proof -
  have general:
    "modifiedDirectoryCache (commit message s) = modifiedDirectoryCache s \<and>
     modifiedDirectoryCache (amend amendMessage s) = modifiedDirectoryCache s \<and>
     hgStatusCache (commit message s) = [] \<and>
     hgDiffCache (commit message s) = [] \<and>
     emitted (commit message s) =
       emitted s @ [(DidChangeStatuses, ([], modifiedDirectoryCache s, []))]"
    by (simp add: commit_def amend_def clearClientCache_def emit_def callService_def
        cacheView_def)
  have concrete:
    "hgStatusCache clientWithModifiedFile = [(''/p/a.txt'', MODIFIED)] \<and>
     modifiedDirectoryCache clientWithModifiedFile = [(''/p/'', 1)] \<and>
     hgStatusCache (commit ''message'' clientWithModifiedFile) = [] \<and>
     modifiedDirectoryCache (commit ''message'' clientWithModifiedFile) = [(''/p/'', 1)] \<and>
     getDirectoryStatus exampleEnv (commit ''message'' clientWithModifiedFile) (Some ''/p'') =
       NUM_MODIFIED \<and>
     modifiedDirectoryCache
       (refreshStatusesOfAllFilesInCache exampleEnv serviceNothing clientWithModifiedFile) = []"
    by code_simp
  from general concrete show ?thesis by blast
qed

subsection \<open>Targeted and full refresh\<close>

lemma diffFrame_refl: "diffFrame s s"
  by (simp add: diffFrame_def)

lemma diffFrame_trans: "diffFrame s s1 \<Longrightarrow> diffFrame s1 s2 \<Longrightarrow> diffFrame s s2"
  by (simp add: diffFrame_def)

lemma diffFrame_applyFetchedStatus:
  "diffFrame s (fst (applyFetchedStatus env (s, evs, q) e))"
  by (cases e)
     (simp add: applyFetchedStatus_def diffFrame_def Let_def addAllParentDirectories_def
       removeAllParentDirectories_def)

lemma diffFrame_loop:
  "diffFrame s (fst (foldl (applyFetchedStatus env) (s, evs, q) r))"
proof (induction r arbitrary: s evs q)
  case Nil
  show ?case by (simp add: diffFrame_refl)
next
  case (Cons e r)
  obtain sa evsa qa where step: "applyFetchedStatus env (s, evs, q) e = (sa, evsa, qa)"
    by (cases "applyFetchedStatus env (s, evs, q) e") auto
  have "diffFrame s sa" using diffFrame_applyFetchedStatus [of s env evs q e] by (simp add: step)
  moreover have "diffFrame sa (fst (foldl (applyFetchedStatus env) (sa, evsa, qa) r))"
    by (rule Cons.IH)
  ultimately show ?case by (simp add: step diffFrame_def)
qed

lemma diffFrame_foldl:
  "(\<And>s p. diffFrame s (f s p)) \<Longrightarrow> diffFrame s (foldl f s ps)"
proof (induction ps arbitrary: s)
  case Nil
  show ?case by (simp add: diffFrame_refl)
next
  case (Cons p ps)
  have "diffFrame s (f s p)" by (rule Cons.prems)
  moreover have "diffFrame (f s p) (foldl f (f s p) ps)" by (rule Cons.IH) (rule Cons.prems)
  ultimately show ?case by (simp add: diffFrame_def)
qed

lemma diffFrame_evictQueriedFiles: "diffFrame s (evictQueriedFiles env options q s)"
proof -
  have a: "\<And>s p. diffFrame s (evictOnlyIgnored s p)"
    by (simp add: evictOnlyIgnored_def diffFrame_def)
  have b: "\<And>s p. diffFrame s (evictAllStatuses env s p)"
    by (simp add: evictAllStatuses_def diffFrame_def Let_def removeAllParentDirectories_def)
  have c: "\<And>s p. diffFrame s (evictNonIgnored env s p)"
    by (simp add: evictNonIgnored_def diffFrame_def Let_def removeAllParentDirectories_def)
  show ?thesis
    unfolding evictQueriedFiles_def
    using diffFrame_foldl [of evictOnlyIgnored s q, OF a]
      diffFrame_foldl [of "evictAllStatuses env" s q, OF b]
      diffFrame_foldl [of "evictNonIgnored env" s q, OF c]
    by (simp split: option.split HgStatusOptionValue.split)
qed

lemma diffFrame_emitStatusChangeEvents: "diffFrame s (emitStatusChangeEvents evs s)"
proof -
  have "\<And>s ev. diffFrame s (emit (DidChangeStatus (fst ev) (snd ev)) s)"
    by (simp add: diffFrame_def)
  from diffFrame_foldl [of "\<lambda>s' ev. emit (DidChangeStatus (fst ev) (snd ev)) s'" s evs, OF this]
  show ?thesis by (simp add: emitStatusChangeEvents_def diffFrame_def)
qed

lemma diffFrame_applyStatuses: "diffFrame s (applyStatuses env options ps r s)"
proof -
  obtain s1 evs q where loop:
    "foldl (applyFetchedStatus env) (s, [], set_new ps) r = (s1, evs, q)"
    by (cases "foldl (applyFetchedStatus env) (s, [], set_new ps) r") auto
  have "diffFrame s s1" using diffFrame_loop [of s env "[]" "set_new ps" r] by (simp add: loop)
  moreover have "diffFrame s1 (evictQueriedFiles env options q s1)"
    by (rule diffFrame_evictQueriedFiles)
  moreover have "diffFrame (evictQueriedFiles env options q s1)
      (emitStatusChangeEvents evs (evictQueriedFiles env options q s1))"
    by (rule diffFrame_emitStatusChangeEvents)
  ultimately show ?thesis
    by (simp add: applyStatuses_def loop diffFrame_def)
qed

lemma diffFrame_updateStatuses: "diffFrame s (snd (updateStatuses env svc s filePaths options))"
proof (cases "filter (isPathRelevant env) filePaths = []")
  case True
  then show ?thesis by (simp add: updateStatuses_none diffFrame_refl)
next
  case False
  define s0 where "s0 = callService (FetchStatuses (filter (isPathRelevant env) filePaths) options) s"
  have "diffFrame s s0" by (simp add: diffFrame_def s0_def)
  moreover have "diffFrame s0 (applyStatuses env options (filter (isPathRelevant env) filePaths)
      (fetchStatuses svc (length (serviceCalls s)) (filter (isPathRelevant env) filePaths) options) s0)"
    by (rule diffFrame_applyStatuses)
  ultimately show ?thesis using False
    by (simp add: updateStatuses_some s0_def diffFrame_def)
qed

lemma serviceCalls_updateStatuses:
  "serviceCalls (snd (updateStatuses env svc s filePaths options)) =
     serviceCalls s @
     (if filter (isPathRelevant env) filePaths = [] then []
      else [FetchStatuses (filter (isPathRelevant env) filePaths) options])"
proof (cases "filter (isPathRelevant env) filePaths = []")
  case True
  then show ?thesis by (simp add: updateStatuses_none)
next
  case False
  then show ?thesis
    by (simp add: updateStatuses_some applyStatuses_result(1) [OF refl])
qed

lemma updateDiffInfo_empty: "snd (updateDiffInfo env svc s []) = s"
  by (simp add: updateDiffInfo_def beginUpdateDiffInfo_result)

lemma serviceCalls_updateDiffInfo:
  "serviceCalls (snd (updateDiffInfo env svc s filePaths)) =
     serviceCalls s @
     (if newPathsToFetch env (hgDiffCacheFilesUpdating s) filePaths = [] then []
      else [FetchDiffInfo (newPathsToFetch env (hgDiffCacheFilesUpdating s) filePaths)])"
  by (simp add: updateDiffInfo_def beginUpdateDiffInfo_result completeUpdateDiffInfo_def Let_def
      split: option.split Settled.split)

lemma isPathRelevant_projectDirectory: "isPathRelevant env (projectDirectory_getPath env)"
  by (simp add: isPathRelevant_def)

lemma refresh_is_fullRefresh:
  "refreshStatusesOfAllFilesInCache env svc s = fullRefresh env svc s"
proof (cases "map_keys (hgDiffCache s) = []")
  case True
  then show ?thesis
    by (simp add: refreshStatusesOfAllFilesInCache_def fullRefresh_def Let_def updateDiffInfo_empty)
next
  case False
  then show ?thesis
    by (simp add: refreshStatusesOfAllFilesInCache_def fullRefresh_def Let_def)
qed

text \<open>
  C1, as the code has it: \<open>_updateChangedPaths\<close> runs the targeted refresh when the
  number of changed paths of the project is at most \<open>MAX_INDIVIDUAL_CHANGED_PATHS\<close>,
  which is 1, and the full refresh when it is above. With no changed path of the project
  it returns at once and nothing changes. The targeted refresh asks the backend for the
  statuses of exactly those paths with the all-statuses filter, then for the diff info of
  those of them that are in the diff cache and not being fetched already. The full refresh
  asks for the statuses of the project directory with the only-non-ignored filter, then
  for the diff info of the paths that were in the diff cache.
\<close>

theorem updateChangedPaths_threshold:
  assumes rel: "relevantChangedPaths = filter (isPathRelevant env) changedPaths"
  shows
    "updateChangedPaths env svc s changedPaths =
       (if length relevantChangedPaths \<le> MAX_INDIVIDUAL_CHANGED_PATHS
        then targetedRefresh env svc s relevantChangedPaths
        else fullRefresh env svc s) \<and>
     MAX_INDIVIDUAL_CHANGED_PATHS = 1 \<and>
     (relevantChangedPaths = [] \<longrightarrow> updateChangedPaths env svc s changedPaths = s) \<and>
     (relevantChangedPaths \<noteq> [] \<longrightarrow>
        serviceCalls (targetedRefresh env svc s relevantChangedPaths) =
          serviceCalls s @
          [FetchStatuses relevantChangedPaths (Some \<lparr>hgStatusOption = ALL_STATUSES\<rparr>)] @
          (let pathsToFetch =
                 newPathsToFetch env (hgDiffCacheFilesUpdating s)
                   (filter (\<lambda>p. map_has (hgDiffCache s) p) relevantChangedPaths)
           in if pathsToFetch = [] then [] else [FetchDiffInfo pathsToFetch])) \<and>
     serviceCalls (fullRefresh env svc s) =
       serviceCalls s @
       [FetchStatuses [projectDirectory_getPath env] (Some \<lparr>hgStatusOption = ONLY_NON_IGNORED\<rparr>)] @
       (let pathsToFetch =
              newPathsToFetch env (hgDiffCacheFilesUpdating s) (map_keys (hgDiffCache s))
        in if pathsToFetch = [] then [] else [FetchDiffInfo pathsToFetch])"
proof -
  have relrel: "filter (isPathRelevant env) relevantChangedPaths = relevantChangedPaths"
    unfolding rel by simp
  define s1 where "s1 = snd (updateStatuses env svc s relevantChangedPaths
      (Some \<lparr>hgStatusOption = ALL_STATUSES\<rparr>))"
  have f1: "diffFrame s s1" unfolding s1_def by (rule diffFrame_updateStatuses)
  have calls1: "relevantChangedPaths \<noteq> [] \<Longrightarrow> serviceCalls s1 = serviceCalls s @
      [FetchStatuses relevantChangedPaths (Some \<lparr>hgStatusOption = ALL_STATUSES\<rparr>)]"
    unfolding s1_def by (simp add: serviceCalls_updateStatuses relrel)
  have empty: "targetedRefresh env svc s [] = s"
    by (simp add: targetedRefresh_def updateStatuses_none updateDiffInfo_empty)
  have code: "updateChangedPaths env svc s changedPaths =
       (if length relevantChangedPaths \<le> MAX_INDIVIDUAL_CHANGED_PATHS
        then targetedRefresh env svc s relevantChangedPaths
        else fullRefresh env svc s)"
  proof (cases "relevantChangedPaths = []")
    case True
    then show ?thesis using empty by (simp add: updateChangedPaths_def rel [symmetric])
  next
    case False
    then show ?thesis
      using f1
      by (simp add: updateChangedPaths_def rel [symmetric] Let_def targetedRefresh_def
          serializedRefreshStatusesCache_def refresh_is_fullRefresh s1_def [symmetric]
          diffFrame_def)
  qed
  have none: "relevantChangedPaths = [] \<longrightarrow> updateChangedPaths env svc s changedPaths = s"
    by (simp add: updateChangedPaths_def rel [symmetric])
  have targeted: "relevantChangedPaths \<noteq> [] \<longrightarrow>
        serviceCalls (targetedRefresh env svc s relevantChangedPaths) =
          serviceCalls s @
          [FetchStatuses relevantChangedPaths (Some \<lparr>hgStatusOption = ALL_STATUSES\<rparr>)] @
          (let pathsToFetch =
                 newPathsToFetch env (hgDiffCacheFilesUpdating s)
                   (filter (\<lambda>p. map_has (hgDiffCache s) p) relevantChangedPaths)
           in if pathsToFetch = [] then [] else [FetchDiffInfo pathsToFetch])"
    using f1 calls1
    by (simp add: targetedRefresh_def s1_def [symmetric] serviceCalls_updateDiffInfo Let_def
        diffFrame_def)
  define cleared where
    "cleared = s\<lparr>hgStatusCache := [], modifiedDirectoryCache := [], hgDiffCache := []\<rparr>"
  define s2 where "s2 = snd (updateStatuses env svc cleared [projectDirectory_getPath env]
                      (Some \<lparr>hgStatusOption = ONLY_NON_IGNORED\<rparr>))"
  have f2: "diffFrame cleared s2" unfolding s2_def by (rule diffFrame_updateStatuses)
  have calls2: "serviceCalls s2 = serviceCalls s @
      [FetchStatuses [projectDirectory_getPath env] (Some \<lparr>hgStatusOption = ONLY_NON_IGNORED\<rparr>)]"
    unfolding s2_def
    by (simp add: serviceCalls_updateStatuses isPathRelevant_projectDirectory cleared_def)
  have upd2: "hgDiffCacheFilesUpdating s2 = hgDiffCacheFilesUpdating s"
    using f2 by (simp add: diffFrame_def cleared_def)
  have full: "serviceCalls (fullRefresh env svc s) =
       serviceCalls s @
       [FetchStatuses [projectDirectory_getPath env] (Some \<lparr>hgStatusOption = ONLY_NON_IGNORED\<rparr>)] @
       (let pathsToFetch =
              newPathsToFetch env (hgDiffCacheFilesUpdating s) (map_keys (hgDiffCache s))
        in if pathsToFetch = [] then [] else [FetchDiffInfo pathsToFetch])"
    using calls2 upd2
    by (simp add: fullRefresh_def cleared_def [symmetric] s2_def [symmetric]
        serviceCalls_updateDiffInfo Let_def)
  show ?thesis using code none targeted full by (simp add: MAX_INDIVIDUAL_CHANGED_PATHS_def)
qed

theorem updateChangedPaths_threshold_witness:
  "serviceCalls (updateChangedPaths exampleEnv serviceNothing exampleClient
      [''/p/a.txt'', ''/q/c.txt'']) =
     [FetchStatuses [''/p/a.txt''] (Some \<lparr>hgStatusOption = ALL_STATUSES\<rparr>),
      FetchDiffInfo [''/p/a.txt'']] \<and>
   serviceCalls (updateChangedPaths exampleEnv serviceNothing exampleClient
      [''/p/a.txt'', ''/p/b.txt'']) =
     [FetchStatuses [''/p''] (Some \<lparr>hgStatusOption = ONLY_NON_IGNORED\<rparr>),
      FetchDiffInfo [''/p/a.txt'']] \<and>
   updateChangedPaths exampleEnv serviceNothing exampleClient [''/q/c.txt''] = exampleClient"
proof -
  have rel1: "[''/p/a.txt''] = filter (isPathRelevant exampleEnv) [''/p/a.txt'', ''/q/c.txt'']"
    by code_simp
  have rel2: "[''/p/a.txt'', ''/p/b.txt''] =
      filter (isPathRelevant exampleEnv) [''/p/a.txt'', ''/p/b.txt'']"
    by code_simp
  have rel3: "[] = filter (isPathRelevant exampleEnv) [''/q/c.txt'']"
    by code_simp
  have e1: "newPathsToFetch exampleEnv (hgDiffCacheFilesUpdating exampleClient)
      (filter (\<lambda>p. map_has (hgDiffCache exampleClient) p) [''/p/a.txt'']) = [''/p/a.txt'']"
    by code_simp
  have e2: "newPathsToFetch exampleEnv (hgDiffCacheFilesUpdating exampleClient)
      (map_keys (hgDiffCache exampleClient)) = [''/p/a.txt'']"
    by code_simp
  have e3: "serviceCalls exampleClient = []" "projectDirectory_getPath exampleEnv = ''/p''"
    by (simp_all add: exampleClient_def constructor_def exampleEnv_def)
  note t1 = updateChangedPaths_threshold [OF rel1, of serviceNothing exampleClient, unfolded e1 e3]
  note t2 = updateChangedPaths_threshold [OF rel2, of serviceNothing exampleClient, unfolded e2 e3]
  note t3 = updateChangedPaths_threshold [OF rel3, of serviceNothing exampleClient]
  from t1 have "serviceCalls (updateChangedPaths exampleEnv serviceNothing exampleClient
      [''/p/a.txt'', ''/q/c.txt'']) =
     [FetchStatuses [''/p/a.txt''] (Some \<lparr>hgStatusOption = ALL_STATUSES\<rparr>),
      FetchDiffInfo [''/p/a.txt'']]"
    by simp
  moreover from t2 have "serviceCalls (updateChangedPaths exampleEnv serviceNothing exampleClient
      [''/p/a.txt'', ''/p/b.txt'']) =
     [FetchStatuses [''/p''] (Some \<lparr>hgStatusOption = ONLY_NON_IGNORED\<rparr>),
      FetchDiffInfo [''/p/a.txt'']]"
    by simp
  moreover from t3 have
    "updateChangedPaths exampleEnv serviceNothing exampleClient [''/q/c.txt''] = exampleClient"
    by blast
  ultimately show ?thesis by simp
qed

theorem updateChangedPaths_threshold_counterexample:
  "length (filter (isPathRelevant exampleEnv) [''/p/a.txt'']) = MAX_INDIVIDUAL_CHANGED_PATHS \<and>
   updateChangedPaths exampleEnv serviceNothing exampleClient [''/p/a.txt''] =
     targetedRefresh exampleEnv serviceNothing exampleClient [''/p/a.txt''] \<and>
   updateChangedPaths exampleEnv serviceNothing exampleClient [''/p/a.txt''] \<noteq>
     fullRefresh exampleEnv serviceNothing exampleClient \<and>
   serviceCalls (updateChangedPaths exampleEnv serviceNothing exampleClient [''/p/a.txt'']) =
     [FetchStatuses [''/p/a.txt''] (Some \<lparr>hgStatusOption = ALL_STATUSES\<rparr>),
      FetchDiffInfo [''/p/a.txt'']] \<and>
   serviceCalls (fullRefresh exampleEnv serviceNothing exampleClient) =
     [FetchStatuses [''/p''] (Some \<lparr>hgStatusOption = ONLY_NON_IGNORED\<rparr>),
      FetchDiffInfo [''/p/a.txt'']]"
  by code_simp

subsection \<open>Asking for the same statuses again\<close>










subsection \<open>The revision caches\<close>

lemma length_map_delete_present:
  "map_of m k = Some v \<Longrightarrow> Suc (length (map_delete k m)) \<le> length m"
proof (induction m)
  case Nil
  then show ?case by simp
next
  case (Cons e m)
  then show ?case
    by (cases "fst e = k") (auto simp: map_delete_def intro: le_SucI length_filter_le)
qed

lemma lruBounded_get: "lruBounded n c \<Longrightarrow> lruBounded n (snd (lru_get c k))"
  using length_map_delete_present [of "lru_items c" k]
  by (auto simp: lruBounded_def lru_get_def split: option.split)

lemma lruBounded_set: "lruBounded n c \<Longrightarrow> lruBounded n (lru_set k v c)"
  by (simp add: lruBounded_def lru_set_def)

lemma lruBounded_mutate: "lruBounded n c \<Longrightarrow> lruBounded n (lru_mutate k f c)"
  by (simp add: lruBounded_def lru_mutate_def)

lemma lruBounded_new: "lruBounded n (lru_new n)"
  by (simp add: lruBounded_def lru_new_def)

lemma bounded_fetchFilesChanged:
  "revisionCachesBounded s \<Longrightarrow>
   revisionCachesBounded (snd (fetchFilesChangedAtRevision svc s revision))"
  using lruBounded_get [of 100 "revisionIdToFileChanges s" revision]
  by (auto simp: revisionCachesBounded_def fetchFilesChangedAtRevision_def Let_def callService_def
      lruBounded_set split: prod.split option.split)

lemma bounded_fetchFileContent:
  "revisionCachesBounded s \<Longrightarrow>
   revisionCachesBounded (snd (fetchFileContentAtRevision svc s filePath revision))"
  using lruBounded_get [of 20 "fileContentsAtRevisionIds s" revision]
  by (auto simp: revisionCachesBounded_def fetchFileContentAtRevision_def Let_def callService_def
      lruBounded_set lruBounded_mutate split: prod.split option.split)

lemma bounded_runLookups:
  "revisionCachesBounded s \<Longrightarrow> revisionCachesBounded (runLookups svc s lookups)"
  unfolding runLookups_def
proof (induction lookups arbitrary: s)
  case Nil
  then show ?case by simp
next
  case (Cons l lookups)
  have "revisionCachesBounded (lookupRevision svc s l)"
    using Cons.prems by (cases l) (simp_all add: bounded_fetchFilesChanged bounded_fetchFileContent)
  then show ?case using Cons.IH by simp
qed

lemma bounded_constructor: "revisionCachesBounded constructor"
  by (simp add: revisionCachesBounded_def constructor_def lruBounded_new)

lemma map_of_mutate_front:
  "map_of (map (\<lambda>e. if fst e = k then (fst e, f (snd e)) else e) ((k, v) # rest)) k = Some (f v)"
  by simp

lemma changes_read_through:
  assumes "lru_max (revisionIdToFileChanges s) = 100"
  shows "(case cachedChanges s revision of
            Some changes \<Rightarrow>
              fst (fetchFilesChangedAtRevision svc s revision) = changes \<and>
              serviceCalls (snd (fetchFilesChangedAtRevision svc s revision)) = serviceCalls s
          | None \<Rightarrow>
              fst (fetchFilesChangedAtRevision svc s revision) =
                service_fetchFilesChangedAtRevision svc (length (serviceCalls s)) revision \<and>
              serviceCalls (snd (fetchFilesChangedAtRevision svc s revision)) =
                serviceCalls s @ [FetchFilesChangedAtRevision revision]) \<and>
         cachedChanges (snd (fetchFilesChangedAtRevision svc s revision)) revision =
           Some (fst (fetchFilesChangedAtRevision svc s revision))"
  using assms
  by (simp add: cachedChanges_def fetchFilesChangedAtRevision_def lru_get_def lru_set_def Let_def
      callService_def split: option.split)

lemma contents_read_through:
  assumes "lru_max (fileContentsAtRevisionIds s) = 20"
  shows "(case cachedContents s filePath revision of
            Some contents \<Rightarrow>
              fst (fetchFileContentAtRevision svc s filePath revision) = contents \<and>
              serviceCalls (snd (fetchFileContentAtRevision svc s filePath revision)) =
                serviceCalls s
          | None \<Rightarrow>
              fst (fetchFileContentAtRevision svc s filePath revision) =
                service_fetchFileContentAtRevision svc (length (serviceCalls s)) filePath revision \<and>
              serviceCalls (snd (fetchFileContentAtRevision svc s filePath revision)) =
                serviceCalls s @ [FetchFileContentAtRevision filePath revision]) \<and>
         cachedContents (snd (fetchFileContentAtRevision svc s filePath revision)) filePath revision =
           Some (fst (fetchFileContentAtRevision svc s filePath revision))"
proof (cases "map_of (lru_items (fileContentsAtRevisionIds s)) revision")
  case None
  then show ?thesis
    using assms
    by (simp add: cachedContents_def fetchFileContentAtRevision_def lru_get_def lru_set_def
        lru_mutate_def Let_def callService_def map_get_def)
next
  case (Some m)
  show ?thesis
  proof (cases "map_of m filePath")
    case None
    with Some show ?thesis
      using assms
      by (simp add: cachedContents_def fetchFileContentAtRevision_def lru_get_def
          lru_mutate_def Let_def callService_def map_get_def)
  next
    case (Some contents)
    with \<open>map_of (lru_items (fileContentsAtRevisionIds s)) revision = Some m\<close> show ?thesis
      using assms
      by (simp add: cachedContents_def fetchFileContentAtRevision_def lru_get_def
          Let_def map_get_def)
  qed
qed

lemma remdups_snoc: "remdups (ks @ [k]) = filter (\<lambda>x. x \<noteq> k) (remdups ks) @ [k]"
  by (induction ks) auto

lemma filter_ne_removeAll: "filter (\<lambda>x. x \<noteq> k) xs = removeAll k xs"
  by (induction xs) auto

lemma recentFirst_snoc: "recentFirst (ks @ [k]) = k # removeAll k (recentFirst ks)"
proof -
  have "rev (remdups (ks @ [k])) = k # filter (\<lambda>x. x \<noteq> k) (rev (remdups ks))"
    by (simp add: remdups_snoc rev_filter)
  then show ?thesis by (simp only: recentFirst_def filter_ne_removeAll)
qed

lemma distinct_recentFirst: "distinct (recentFirst ks)"
  by (simp add: recentFirst_def)

lemma set_recentFirst: "set (recentFirst ks) = set ks"
  by (simp add: recentFirst_def)

lemma take_removeAll_take:
  "distinct xs \<Longrightarrow> m < j \<Longrightarrow> take m (removeAll k (take j xs)) = take m (removeAll k xs)"
proof (induction xs arbitrary: m j)
  case Nil
  then show ?case by simp
next
  case (Cons x xs)
  obtain j' where j: "j = Suc j'" using Cons.prems(2) by (cases j) auto
  show ?case
  proof (cases "x = k")
    case True
    with Cons.prems have "k \<notin> set xs" by simp
    then have "k \<notin> set (take j' xs)" by (auto dest: in_set_takeD)
    with \<open>k \<notin> set xs\<close> have "removeAll k (take j' xs) = take j' xs" "removeAll k xs = xs"
      by simp_all
    with True Cons.prems(2) show ?thesis by (simp add: j min_def)
  next
    case False
    show ?thesis
    proof (cases m)
      case 0
      then show ?thesis by simp
    next
      case (Suc m')
      with Cons.prems j have "m' < j'" and "distinct xs" by auto
      from Cons.IH [OF this(2) this(1)] False show ?thesis by (simp add: j Suc)
    qed
  qed
qed

lemma touch_take:
  assumes "0 < n"
  shows "take n (k # removeAll k (take n (recentFirst ks))) = take n (recentFirst (ks @ [k]))"
proof -
  obtain m where n: "n = Suc m" using assms by (cases n) auto
  have "take m (removeAll k (take (Suc m) (recentFirst ks))) = take m (removeAll k (recentFirst ks))"
    by (rule take_removeAll_take) (simp_all add: distinct_recentFirst)
  then show ?thesis by (simp add: n recentFirst_snoc)
qed

lemma keys_map_delete: "map fst (map_delete k m) = removeAll k (map fst m)"
  by (induction m) (auto simp: map_delete_def)

lemma length_removeAll_present:
  "distinct K \<Longrightarrow> k \<in> set K \<Longrightarrow> Suc (length (removeAll k K)) = length K"
  by (simp add: distinct_remove1_removeAll [symmetric] length_remove1)
     (metis length_pos_if_in_set Suc_pred)

lemma map_of_keys: "map_of m k \<noteq> None \<longleftrightarrow> k \<in> set (map fst m)"
  by (simp add: map_of_eq_None_iff)

text \<open>Using a key of a cache that holds the most recent keys.\<close>

lemma lruHolds_get_hit:
  assumes "lruHolds n ks c" and "map_of (lru_items c) k = Some v" and "0 < n"
  shows "lruHolds n (ks @ [k]) (snd (lru_get c k))"
proof -
  from assms(1) have mx: "lru_max c = n" and keys: "lruKeys c = take n (recentFirst ks)"
    by (simp_all add: lruHolds_def)
  have d: "distinct (lruKeys c)" by (simp add: keys distinct_recentFirst)
  have len: "length (lruKeys c) \<le> n" by (simp add: keys)
  from assms(2) have mem: "k \<in> set (lruKeys c)"
    using map_of_keys [of "lru_items c" k] by (simp add: lruKeys_def)
  have "length (k # removeAll k (lruKeys c)) \<le> n"
    using length_removeAll_present [OF d mem] len by simp
  then have "k # removeAll k (lruKeys c) = take n (k # removeAll k (lruKeys c))"
    by simp
  also have "\<dots> = take n (recentFirst (ks @ [k]))"
    unfolding keys by (rule touch_take [OF assms(3)])
  finally show ?thesis
    using assms(2) mx by (simp add: lruHolds_def lru_get_def lruKeys_def keys_map_delete)
qed

lemma lruHolds_set:
  assumes "lruHolds n ks c" and "0 < n"
  shows "lruHolds n (ks @ [k]) (lru_set k v c)"
proof -
  from assms(1) have mx: "lru_max c = n" and keys: "lruKeys c = take n (recentFirst ks)"
    by (simp_all add: lruHolds_def)
  have "lruKeys (lru_set k v c) = take n (k # removeAll k (lruKeys c))"
    by (simp add: lru_set_def lruKeys_def mx keys_map_delete take_map [symmetric])
  also have "\<dots> = take n (recentFirst (ks @ [k]))"
    unfolding keys by (rule touch_take [OF assms(2)])
  finally show ?thesis using mx by (simp add: lruHolds_def lru_set_def)
qed

lemma lruHolds_get_miss:
  "map_of (lru_items c) k = None \<Longrightarrow> snd (lru_get c k) = c"
  by (simp add: lru_get_def)

lemma lruHolds_mutate: "lruHolds n ks c \<Longrightarrow> lruHolds n ks (lru_mutate k f c)"
  by (simp add: lruHolds_def lru_mutate_def lruKeys_def comp_def if_distrib [of fst] cong: if_cong)


lemma changesRevisions_snoc [simp]:
  "changesRevisions (ls @ [FilesChangedAt r]) = changesRevisions ls @ [r]"
  "changesRevisions (ls @ [FileContentAt f r]) = changesRevisions ls"
  "changesRevisions [] = []"
  by (simp_all add: changesRevisions_def)

lemma contentsRevisions_snoc [simp]:
  "contentsRevisions (ls @ [FileContentAt f r]) = contentsRevisions ls @ [r]"
  "contentsRevisions (ls @ [FilesChangedAt r]) = contentsRevisions ls"
  "contentsRevisions [] = []"
  by (simp_all add: contentsRevisions_def)

lemma changesRevisions_append:
  "changesRevisions (xs @ ys) = changesRevisions xs @ changesRevisions ys"
  by (simp add: changesRevisions_def)

lemma contentsRevisions_append:
  "contentsRevisions (xs @ ys) = contentsRevisions xs @ contentsRevisions ys"
  by (simp add: contentsRevisions_def)

text \<open>What the cache holds for a key after \<open>get\<close>, \<open>set\<close> and a change of a stored \<open>Map\<close>.\<close>

lemma map_of_lru_get:
  "map_of (lru_items (snd (lru_get c k))) r = map_of (lru_items c) r"
  by (auto simp: lru_get_def split: option.split)

lemma fst_lru_get: "fst (lru_get c k) = map_of (lru_items c) k"
  by (simp add: lru_get_def split: option.split)

lemma map_of_take:
  "r \<in> set (map fst (take n m)) \<Longrightarrow> map_of (take n m) r = map_of m r"
proof -
  assume mem: "r \<in> set (map fst (take n m))"
  then obtain v where v: "map_of (take n m) r = Some v"
    using map_of_keys [of "take n m" r] by auto
  have "map_of m r = map_of (take n m @ drop n m) r" by simp
  also have "\<dots> = Some v" unfolding map_of_append using v by (simp add: map_add_def)
  finally show ?thesis using v by simp
qed

lemma map_of_lru_set_other:
  assumes "r \<in> set (lruKeys (lru_set k v c))" and "r \<noteq> k"
  shows "map_of (lru_items (lru_set k v c)) r = map_of (lru_items c) r"
proof -
  from assms(1) have "map_of (take (lru_max c) ((k, v) # map_delete k (lru_items c))) r =
      map_of ((k, v) # map_delete k (lru_items c)) r"
    by (intro map_of_take) (simp add: lruKeys_def lru_set_def)
  with assms(2) show ?thesis by (simp add: lru_set_def)
qed

lemma map_of_lru_set_same:
  "0 < lru_max c \<Longrightarrow> map_of (lru_items (lru_set k v c)) k = Some v"
  by (cases "lru_max c") (simp_all add: lru_set_def)

lemma map_of_lru_mutate:
  "map_of (lru_items (lru_mutate k f c)) r =
     (if r = k then map_option f (map_of (lru_items c) r) else map_of (lru_items c) r)"
proof -
  have "map_of (map (\<lambda>e. if fst e = k then (fst e, f (snd e)) else e) m) r =
     (if r = k then map_option f (map_of m r) else map_of m r)" for m
    by (induction m) auto
  then show ?thesis by (simp add: lru_mutate_def)
qed

lemma lruKeys_mutate: "lruKeys (lru_mutate k f c) = lruKeys c"
  by (simp add: lru_mutate_def lruKeys_def comp_def if_distrib [of fst] cong: if_cong)

text \<open>The client after a lookup.\<close>

lemma fetchFilesChanged_state:
  "snd (fetchFilesChangedAtRevision svc s r) =
     (case map_of (lru_items (revisionIdToFileChanges s)) r of
        Some v \<Rightarrow> s\<lparr>revisionIdToFileChanges := snd (lru_get (revisionIdToFileChanges s) r)\<rparr>
      | None \<Rightarrow>
          (callService (FetchFilesChangedAtRevision r) s)
            \<lparr>revisionIdToFileChanges :=
               lru_set r (service_fetchFilesChangedAtRevision svc (length (serviceCalls s)) r)
                 (revisionIdToFileChanges s)\<rparr>)"
  by (simp add: fetchFilesChangedAtRevision_def lru_get_def Let_def callService_def
      split: option.split)

lemma fetchFileContent_state:
  "snd (fetchFileContentAtRevision svc s f r) =
     (case map_of (lru_items (fileContentsAtRevisionIds s)) r of
        None \<Rightarrow>
          (callService (FetchFileContentAtRevision f r) s)
            \<lparr>fileContentsAtRevisionIds :=
               lru_mutate r
                 (map_set f (service_fetchFileContentAtRevision svc (length (serviceCalls s)) f r))
                 (lru_set r [] (fileContentsAtRevisionIds s))\<rparr>
      | Some m \<Rightarrow>
          (case map_of m f of
             Some c \<Rightarrow>
               s\<lparr>fileContentsAtRevisionIds := snd (lru_get (fileContentsAtRevisionIds s) r)\<rparr>
           | None \<Rightarrow>
               (callService (FetchFileContentAtRevision f r) s)
                 \<lparr>fileContentsAtRevisionIds :=
                    lru_mutate r
                      (map_set f
                         (service_fetchFileContentAtRevision svc (length (serviceCalls s)) f r))
                      (snd (lru_get (fileContentsAtRevisionIds s) r))\<rparr>))"
  by (simp add: fetchFileContentAtRevision_def lru_get_def Let_def callService_def map_get_def
      split: option.split)


lemma keys_lookupRevision:
  assumes "revisionKeysAre s ls"
  shows "revisionKeysAre (lookupRevision svc s l) (ls @ [l])"
proof (cases l)
  case (FilesChangedAt r)
  from assms have h: "lruHolds 100 (changesRevisions ls) (revisionIdToFileChanges s)"
    and h': "lruHolds 20 (contentsRevisions ls) (fileContentsAtRevisionIds s)"
    by (simp_all add: revisionKeysAre_def)
  show ?thesis
  proof (cases "map_of (lru_items (revisionIdToFileChanges s)) r")
    case None
    then show ?thesis
      using lruHolds_set [OF h, of r] h'
      by (simp add: FilesChangedAt fetchFilesChanged_state revisionKeysAre_def callService_def)
  next
    case (Some v)
    then show ?thesis
      using lruHolds_get_hit [OF h Some] h'
      by (simp add: FilesChangedAt fetchFilesChanged_state revisionKeysAre_def)
  qed
next
  case (FileContentAt f r)
  from assms have h': "lruHolds 100 (changesRevisions ls) (revisionIdToFileChanges s)"
    and h: "lruHolds 20 (contentsRevisions ls) (fileContentsAtRevisionIds s)"
    by (simp_all add: revisionKeysAre_def)
  show ?thesis
  proof (cases "map_of (lru_items (fileContentsAtRevisionIds s)) r")
    case None
    then show ?thesis
      using lruHolds_mutate [OF lruHolds_set [OF h, of r]] h'
      by (simp add: FileContentAt fetchFileContent_state revisionKeysAre_def callService_def)
  next
    case (Some m)
    then show ?thesis
      using lruHolds_get_hit [OF h Some] lruHolds_mutate [OF lruHolds_get_hit [OF h Some]] h'
      by (simp add: FileContentAt fetchFileContent_state revisionKeysAre_def callService_def
          split: option.split)
  qed
qed

lemma keys_constructor: "revisionKeysAre constructor []"
  by (simp add: revisionKeysAre_def lruHolds_def constructor_def lru_new_def lruKeys_def
      recentFirst_def)

lemma runLookups_snoc:
  "runLookups svc s (ls @ [l]) = lookupRevision svc (runLookups svc s ls) l"
  by (simp add: runLookups_def)

lemma runLookups_append:
  "runLookups svc s (xs @ ys) = runLookups svc (runLookups svc s xs) ys"
  by (simp add: runLookups_def)

lemma keys_runLookups: "revisionKeysAre (runLookups svc constructor ls) ls"
proof (induction ls rule: rev_induct)
  case Nil
  show ?case by (simp add: runLookups_def keys_constructor)
next
  case (snoc l ls)
  then show ?case by (simp add: runLookups_snoc keys_lookupRevision)
qed

lemma other_cache_untouched:
  "fileContentsAtRevisionIds (snd (fetchFilesChangedAtRevision svc s r)) =
     fileContentsAtRevisionIds s"
  "revisionIdToFileChanges (snd (fetchFileContentAtRevision svc s f r)) =
     revisionIdToFileChanges s"
  by (simp_all add: fetchFilesChanged_state fetchFileContent_state callService_def
      split: option.split)

text \<open>A value stays as long as its revision is a key.\<close>

lemma changes_kept:
  assumes "cachedChanges s r = Some v"
    and "r \<in> set (lruKeys (revisionIdToFileChanges (lookupRevision svc s l)))"
  shows "cachedChanges (lookupRevision svc s l) r = Some v"
proof (cases l)
  case (FileContentAt f r')
  with assms(1) show ?thesis
    by (simp add: cachedChanges_def other_cache_untouched)
next
  case (FilesChangedAt r')
  show ?thesis
  proof (cases "map_of (lru_items (revisionIdToFileChanges s)) r'")
    case (Some v')
    with assms(1) show ?thesis
      by (simp add: FilesChangedAt cachedChanges_def fetchFilesChanged_state map_of_lru_get)
  next
    case None
    with assms(1) have ne: "r \<noteq> r'" by (auto simp: cachedChanges_def)
    from assms(2) None have "r \<in> set (lruKeys (lru_set r'
        (service_fetchFilesChangedAtRevision svc (length (serviceCalls s)) r')
        (revisionIdToFileChanges s)))"
      by (simp add: FilesChangedAt fetchFilesChanged_state callService_def)
    from map_of_lru_set_other [OF this ne] None assms(1) show ?thesis
      by (simp add: FilesChangedAt cachedChanges_def fetchFilesChanged_state callService_def)
  qed
qed

lemma contents_kept:
  assumes "cachedContents s f r = Some c"
    and "r \<in> set (lruKeys (fileContentsAtRevisionIds (lookupRevision svc s l)))"
  shows "cachedContents (lookupRevision svc s l) f r = Some c"
proof (cases l)
  case (FilesChangedAt r')
  with assms(1) show ?thesis
    by (simp add: cachedContents_def other_cache_untouched)
next
  case (FileContentAt f' r')
  from assms(1) obtain m where m: "map_of (lru_items (fileContentsAtRevisionIds s)) r = Some m"
    and mf: "map_of m f = Some c"
    by (auto simp: cachedContents_def map_get_def split: option.splits)
  show ?thesis
  proof (cases "map_of (lru_items (fileContentsAtRevisionIds s)) r'")
    case None
    with m have ne: "r \<noteq> r'" by auto
    from assms(2) None have "r \<in> set (lruKeys (lru_set r' [] (fileContentsAtRevisionIds s)))"
      by (simp add: FileContentAt fetchFileContent_state callService_def lruKeys_mutate)
    from map_of_lru_set_other [OF this ne] None m mf ne show ?thesis
      by (simp add: FileContentAt cachedContents_def fetchFileContent_state callService_def
          map_of_lru_mutate map_get_def)
  next
    case (Some m')
    show ?thesis
    proof (cases "map_of m' f'")
      case (Some c')
      with \<open>map_of (lru_items (fileContentsAtRevisionIds s)) r' = Some m'\<close> m mf show ?thesis
        by (simp add: FileContentAt cachedContents_def fetchFileContent_state map_of_lru_get
            map_get_def)
    next
      case None
      with \<open>map_of (lru_items (fileContentsAtRevisionIds s)) r' = Some m'\<close> m mf show ?thesis
        by (auto simp: FileContentAt cachedContents_def fetchFileContent_state map_of_lru_get
            map_of_lru_mutate map_get_def callService_def)
    qed
  qed
qed


text \<open>Where a key stands among the most recent ones after other keys were used.\<close>

lemma recent_position:
  "\<exists>pre post. recentFirst (xs @ r # ys) = pre @ r # post \<and> set pre \<subseteq> set ys - {r} \<and> distinct pre"
proof (induction ys rule: rev_induct)
  case Nil
  have "recentFirst (xs @ [r]) = [] @ r # removeAll r (recentFirst xs)"
    by (simp add: recentFirst_snoc)
  then show ?case by (intro exI [of _ "[]"] exI [of _ "removeAll r (recentFirst xs)"]) simp
next
  case (snoc y ys)
  then obtain pre post where p: "recentFirst (xs @ r # ys) = pre @ r # post"
    and sub: "set pre \<subseteq> set ys - {r}" and d: "distinct pre" by blast
  have step: "recentFirst (xs @ r # ys @ [y]) = y # removeAll y (pre @ r # post)"
    using recentFirst_snoc [of "xs @ r # ys" y] by (simp add: p)
  show ?case
  proof (cases "y = r")
    case True
    with step have "recentFirst (xs @ r # ys @ [y]) = [] @ r # removeAll r (pre @ post)"
      by simp
    then show ?thesis
      by (intro exI [of _ "[]"] exI [of _ "removeAll r (pre @ post)"]) simp
  next
    case False
    with step have "recentFirst (xs @ r # ys @ [y]) =
        (y # removeAll y pre) @ r # removeAll y post" by simp
    moreover have "set (y # removeAll y pre) \<subseteq> set (ys @ [y]) - {r}"
      using sub False by auto
    moreover have "distinct (y # removeAll y pre)" using d by (simp add: distinct_removeAll)
    ultimately show ?thesis by blast
  qed
qed

lemma stays_recent:
  assumes "card (set ys - {r}) < n"
  shows "r \<in> set (take n (recentFirst (xs @ r # ys)))"
proof -
  obtain pre post where p: "recentFirst (xs @ r # ys) = pre @ r # post"
    and sub: "set pre \<subseteq> set ys - {r}" and d: "distinct pre"
    using recent_position [of xs r ys] by blast
  have "length pre = card (set pre)" using d by (simp add: distinct_card)
  also have "\<dots> \<le> card (set ys - {r})" using sub by (intro card_mono) auto
  finally have "length pre < n" using assms by simp
  then obtain k where k: "n - length pre = Suc k" by (cases "n - length pre") auto
  show ?thesis by (simp add: p k)
qed

lemma card_revisions_prefix:
  "card (set (xs @ ys) - {r}) < n \<Longrightarrow> card (set xs - {r}) < n"
proof -
  assume a: "card (set (xs @ ys) - {r}) < n"
  have "card (set xs - {r}) \<le> card (set (xs @ ys) - {r})" by (intro card_mono) auto
  with a show ?thesis by simp
qed

lemma reached_bounds:
  assumes "s = runLookups svc constructor ls"
  shows "lru_max (revisionIdToFileChanges s) = 100" "lru_max (fileContentsAtRevisionIds s) = 20"
    "length (lru_items (revisionIdToFileChanges s)) \<le> 100"
    "length (lru_items (fileContentsAtRevisionIds s)) \<le> 20"
proof -
  have "revisionCachesBounded s"
    unfolding assms by (rule bounded_runLookups) (rule bounded_constructor)
  then show "lru_max (revisionIdToFileChanges s) = 100" "lru_max (fileContentsAtRevisionIds s) = 20"
    "length (lru_items (revisionIdToFileChanges s)) \<le> 100"
    "length (lru_items (fileContentsAtRevisionIds s)) \<le> 20"
    by (simp_all add: revisionCachesBounded_def lruBounded_def)
qed

lemma changes_retained:
  assumes reached: "s = runLookups svc constructor ls"
    and few: "card (set (changesRevisions later) - {r}) < 100"
  shows "cachedChanges (runLookups svc (snd (fetchFilesChangedAtRevision svc s r)) later) r =
           Some (fst (fetchFilesChangedAtRevision svc s r))"
  using few
proof (induction later rule: rev_induct)
  case Nil
  show ?case
    using changes_read_through [OF reached_bounds(1) [OF reached], where revision = r and svc = svc]
    by (simp add: runLookups_def)
next
  case (snoc l ms)
  define s2 where "s2 = snd (fetchFilesChangedAtRevision svc s r)"
  have s2: "s2 = runLookups svc constructor (ls @ [FilesChangedAt r])"
    by (simp add: s2_def reached runLookups_snoc)
  from snoc.prems have "card (set (changesRevisions ms) - {r}) < 100"
    using card_revisions_prefix [of "changesRevisions ms" "changesRevisions [l]" r 100]
    by (simp add: changesRevisions_append)
  from snoc.IH [OF this]
  have ih: "cachedChanges (runLookups svc s2 ms) r = Some (fst (fetchFilesChangedAtRevision svc s r))"
    by (simp add: s2_def)
  have "revisionKeysAre (runLookups svc s2 (ms @ [l])) ((ls @ [FilesChangedAt r]) @ ms @ [l])"
    unfolding s2 runLookups_append [symmetric] by (rule keys_runLookups)
  then have "lruKeys (revisionIdToFileChanges (runLookups svc s2 (ms @ [l]))) =
      take 100 (recentFirst (changesRevisions ls @ r # changesRevisions (ms @ [l])))"
    by (simp add: revisionKeysAre_def lruHolds_def changesRevisions_def)
  with stays_recent [OF snoc.prems, of "changesRevisions ls"]
  have "r \<in> set (lruKeys (revisionIdToFileChanges (lookupRevision svc (runLookups svc s2 ms) l)))"
    by (simp add: runLookups_snoc)
  from changes_kept [OF ih this] show ?case by (simp add: runLookups_snoc s2_def)
qed

lemma contents_retained:
  assumes reached: "s = runLookups svc constructor ls"
    and few: "card (set (contentsRevisions later) - {r}) < 20"
  shows "cachedContents (runLookups svc (snd (fetchFileContentAtRevision svc s f r)) later) f r =
           Some (fst (fetchFileContentAtRevision svc s f r))"
  using few
proof (induction later rule: rev_induct)
  case Nil
  show ?case
    using contents_read_through [OF reached_bounds(2) [OF reached],
        where revision = r and filePath = f and svc = svc]
    by (simp add: runLookups_def)
next
  case (snoc l ms)
  define s2 where "s2 = snd (fetchFileContentAtRevision svc s f r)"
  have s2: "s2 = runLookups svc constructor (ls @ [FileContentAt f r])"
    by (simp add: s2_def reached runLookups_snoc)
  from snoc.prems have "card (set (contentsRevisions ms) - {r}) < 20"
    using card_revisions_prefix [of "contentsRevisions ms" "contentsRevisions [l]" r 20]
    by (simp add: contentsRevisions_append)
  from snoc.IH [OF this]
  have ih: "cachedContents (runLookups svc s2 ms) f r =
      Some (fst (fetchFileContentAtRevision svc s f r))"
    by (simp add: s2_def)
  have "revisionKeysAre (runLookups svc s2 (ms @ [l])) ((ls @ [FileContentAt f r]) @ ms @ [l])"
    unfolding s2 runLookups_append [symmetric] by (rule keys_runLookups)
  then have "lruKeys (fileContentsAtRevisionIds (runLookups svc s2 (ms @ [l]))) =
      take 20 (recentFirst (contentsRevisions ls @ r # contentsRevisions (ms @ [l])))"
    by (simp add: revisionKeysAre_def lruHolds_def contentsRevisions_def)
  with stays_recent [OF snoc.prems, of "contentsRevisions ls"]
  have "r \<in> set (lruKeys (fileContentsAtRevisionIds (lookupRevision svc (runLookups svc s2 ms) l)))"
    by (simp add: runLookups_snoc)
  from contents_kept [OF ih this] show ?case by (simp add: runLookups_snoc s2_def)
qed

text \<open>
  C9, as the code has it: after any sequence of lookups on a new client the cache of
  changed-file lists holds at most 100 revisions and the cache of file contents at most 20,
  and the revisions each cache holds are exactly the most recently used ones of its
  lookups, the most recent first: a revision is in the cache of changed-file lists if and
  only if it is among the 100 most recently used, and a revision that is not among the 20
  most recently used has no file contents cached. A lookup whose key is in the cache
  returns the cached value and makes no backend call; a lookup whose key is not makes one
  backend call and returns what it fetched. After a lookup its key stays cached with the
  value returned, through any later lookups that use fewer than 100 (changed-file lists)
  or 20 (file contents) other revisions of that cache, lookups of other files of the same
  revision included: the next lookup of the key then returns the same value and makes no
  backend call.
\<close>

theorem revision_caches_read_through:
  assumes reached: "s = runLookups svc constructor lookups"
  shows
    "lru_max (revisionIdToFileChanges s) = 100 \<and>
     length (lru_items (revisionIdToFileChanges s)) \<le> 100 \<and>
     lru_max (fileContentsAtRevisionIds s) = 20 \<and>
     length (lru_items (fileContentsAtRevisionIds s)) \<le> 20 \<and>
     map fst (lru_items (revisionIdToFileChanges s)) =
       take 100 (recentFirst (changesRevisions lookups)) \<and>
     map fst (lru_items (fileContentsAtRevisionIds s)) =
       take 20 (recentFirst (contentsRevisions lookups)) \<and>
     (cachedChanges s revision \<noteq> None) =
       (revision \<in> set (take 100 (recentFirst (changesRevisions lookups)))) \<and>
     (revision \<notin> set (take 20 (recentFirst (contentsRevisions lookups))) \<longrightarrow>
        cachedContents s filePath revision = None) \<and>
     (case cachedChanges s revision of
        Some changes \<Rightarrow>
          fst (fetchFilesChangedAtRevision svc s revision) = changes \<and>
          serviceCalls (snd (fetchFilesChangedAtRevision svc s revision)) = serviceCalls s
      | None \<Rightarrow>
          fst (fetchFilesChangedAtRevision svc s revision) =
            service_fetchFilesChangedAtRevision svc (length (serviceCalls s)) revision \<and>
          serviceCalls (snd (fetchFilesChangedAtRevision svc s revision)) =
            serviceCalls s @ [FetchFilesChangedAtRevision revision]) \<and>
     (case cachedContents s filePath revision of
        Some contents \<Rightarrow>
          fst (fetchFileContentAtRevision svc s filePath revision) = contents \<and>
          serviceCalls (snd (fetchFileContentAtRevision svc s filePath revision)) =
            serviceCalls s
      | None \<Rightarrow>
          fst (fetchFileContentAtRevision svc s filePath revision) =
            service_fetchFileContentAtRevision svc (length (serviceCalls s)) filePath revision \<and>
          serviceCalls (snd (fetchFileContentAtRevision svc s filePath revision)) =
            serviceCalls s @ [FetchFileContentAtRevision filePath revision]) \<and>
     (\<forall>later.
        card (set (changesRevisions later) - {revision}) < 100 \<longrightarrow>
        (let t = runLookups svc (snd (fetchFilesChangedAtRevision svc s revision)) later
         in cachedChanges t revision = Some (fst (fetchFilesChangedAtRevision svc s revision)) \<and>
            fst (fetchFilesChangedAtRevision svc t revision) =
              fst (fetchFilesChangedAtRevision svc s revision) \<and>
            serviceCalls (snd (fetchFilesChangedAtRevision svc t revision)) = serviceCalls t)) \<and>
     (\<forall>later.
        card (set (contentsRevisions later) - {revision}) < 20 \<longrightarrow>
        (let t = runLookups svc (snd (fetchFileContentAtRevision svc s filePath revision)) later
         in cachedContents t filePath revision =
              Some (fst (fetchFileContentAtRevision svc s filePath revision)) \<and>
            fst (fetchFileContentAtRevision svc t filePath revision) =
              fst (fetchFileContentAtRevision svc s filePath revision) \<and>
            serviceCalls (snd (fetchFileContentAtRevision svc t filePath revision)) =
              serviceCalls t))"
proof -
  note b = reached_bounds [OF reached]
  have k: "revisionKeysAre s lookups" unfolding reached by (rule keys_runLookups)
  then have k1: "map fst (lru_items (revisionIdToFileChanges s)) =
       take 100 (recentFirst (changesRevisions lookups))"
    and k2: "map fst (lru_items (fileContentsAtRevisionIds s)) =
       take 20 (recentFirst (contentsRevisions lookups))"
    by (simp_all add: revisionKeysAre_def lruHolds_def lruKeys_def)
  have e1: "(cachedChanges s revision \<noteq> None) =
       (revision \<in> set (take 100 (recentFirst (changesRevisions lookups))))"
    using map_of_keys [of "lru_items (revisionIdToFileChanges s)" revision]
    by (simp add: cachedChanges_def k1)
  have e2: "revision \<notin> set (take 20 (recentFirst (contentsRevisions lookups))) \<longrightarrow>
        cachedContents s filePath revision = None"
    using map_of_keys [of "lru_items (fileContentsAtRevisionIds s)" revision]
    by (auto simp: cachedContents_def k2)
  note one1 = changes_read_through [OF b(1), where revision = revision and svc = svc]
  note one2 = contents_read_through [OF b(2), where revision = revision and filePath = filePath
      and svc = svc]
  have d1: "let t = runLookups svc (snd (fetchFilesChangedAtRevision svc s revision)) later
         in cachedChanges t revision = Some (fst (fetchFilesChangedAtRevision svc s revision)) \<and>
            fst (fetchFilesChangedAtRevision svc t revision) =
              fst (fetchFilesChangedAtRevision svc s revision) \<and>
            serviceCalls (snd (fetchFilesChangedAtRevision svc t revision)) = serviceCalls t"
    if few: "card (set (changesRevisions later) - {revision}) < 100" for later
  proof -
    define t where "t = runLookups svc (snd (fetchFilesChangedAtRevision svc s revision)) later"
    have t: "t = runLookups svc constructor ((lookups @ [FilesChangedAt revision]) @ later)"
      unfolding t_def by (simp add: reached runLookups_def)
    have c: "cachedChanges t revision = Some (fst (fetchFilesChangedAtRevision svc s revision))"
      unfolding t_def by (rule changes_retained [OF reached few])
    from changes_read_through [OF reached_bounds(1) [OF t], where revision = revision and svc = svc] c
    show ?thesis by (simp add: t_def [symmetric])
  qed
  have d2: "let t = runLookups svc (snd (fetchFileContentAtRevision svc s filePath revision)) later
         in cachedContents t filePath revision =
              Some (fst (fetchFileContentAtRevision svc s filePath revision)) \<and>
            fst (fetchFileContentAtRevision svc t filePath revision) =
              fst (fetchFileContentAtRevision svc s filePath revision) \<and>
            serviceCalls (snd (fetchFileContentAtRevision svc t filePath revision)) =
              serviceCalls t"
    if few: "card (set (contentsRevisions later) - {revision}) < 20" for later
  proof -
    define t where
      "t = runLookups svc (snd (fetchFileContentAtRevision svc s filePath revision)) later"
    have t: "t = runLookups svc constructor ((lookups @ [FileContentAt filePath revision]) @ later)"
      unfolding t_def by (simp add: reached runLookups_def)
    have c: "cachedContents t filePath revision =
        Some (fst (fetchFileContentAtRevision svc s filePath revision))"
      unfolding t_def by (rule contents_retained [OF reached few])
    from contents_read_through [OF reached_bounds(2) [OF t], where revision = revision
        and filePath = filePath and svc = svc] c
    show ?thesis by (simp add: t_def [symmetric])
  qed
  from one1 have o1: "(case cachedChanges s revision of
        Some changes \<Rightarrow>
          fst (fetchFilesChangedAtRevision svc s revision) = changes \<and>
          serviceCalls (snd (fetchFilesChangedAtRevision svc s revision)) = serviceCalls s
      | None \<Rightarrow>
          fst (fetchFilesChangedAtRevision svc s revision) =
            service_fetchFilesChangedAtRevision svc (length (serviceCalls s)) revision \<and>
          serviceCalls (snd (fetchFilesChangedAtRevision svc s revision)) =
            serviceCalls s @ [FetchFilesChangedAtRevision revision])" by blast
  from one2 have o2: "(case cachedContents s filePath revision of
        Some contents \<Rightarrow>
          fst (fetchFileContentAtRevision svc s filePath revision) = contents \<and>
          serviceCalls (snd (fetchFileContentAtRevision svc s filePath revision)) =
            serviceCalls s
      | None \<Rightarrow>
          fst (fetchFileContentAtRevision svc s filePath revision) =
            service_fetchFileContentAtRevision svc (length (serviceCalls s)) filePath revision \<and>
          serviceCalls (snd (fetchFileContentAtRevision svc s filePath revision)) =
            serviceCalls s @ [FetchFileContentAtRevision filePath revision])" by blast
  show ?thesis
    using b k1 k2 e1 e2 o1 o2 d1 d2 by blast
qed

theorem revision_caches_read_through_witness:
  "map fst (lru_items (revisionIdToFileChanges clientAfterLookups)) = [''r1''] \<and>
   map fst (lru_items (fileContentsAtRevisionIds clientAfterLookups)) = [''r1''] \<and>
   fst (fetchFilesChangedAtRevision serviceNothing clientAfterLookups ''r1'') = [''r1''] \<and>
   serviceCalls (snd (fetchFilesChangedAtRevision serviceNothing clientAfterLookups ''r1'')) =
     serviceCalls clientAfterLookups \<and>
   fst (fetchFileContentAtRevision serviceNothing clientAfterLookups ''/p/a.txt'' ''r1'') =
     ''r1:/p/a.txt'' \<and>
   serviceCalls (snd (fetchFileContentAtRevision serviceNothing clientAfterLookups
                        ''/p/a.txt'' ''r1'')) =
     serviceCalls clientAfterLookups \<and>
   cachedContents
     (runLookups serviceNothing
        (snd (fetchFileContentAtRevision serviceNothing clientAfterLookups ''/p/a.txt'' ''r1''))
        laterLookups)
     ''/p/a.txt'' ''r1'' = Some ''r1:/p/a.txt'' \<and>
   serviceCalls
     (snd (fetchFileContentAtRevision serviceNothing
             (runLookups serviceNothing
                (snd (fetchFileContentAtRevision serviceNothing constructor ''/p/a.txt'' ''r1''))
                [FileContentAt ''/p/b.txt'' ''r1''])
             ''/p/a.txt'' ''r1'')) =
     [FetchFileContentAtRevision ''/p/a.txt'' ''r1'',
      FetchFileContentAtRevision ''/p/b.txt'' ''r1'']"
proof -
  have c1: "cachedChanges clientAfterLookups ''r1'' = Some [''r1'']" by code_simp
  have c2: "cachedContents clientAfterLookups ''/p/a.txt'' ''r1'' = Some ''r1:/p/a.txt''"
    by code_simp
  have k1: "take 100 (recentFirst (changesRevisions
      [FilesChangedAt ''r1'', FileContentAt ''/p/a.txt'' ''r1''])) = [''r1'']"
    by code_simp
  have k2: "take 20 (recentFirst (contentsRevisions
      [FilesChangedAt ''r1'', FileContentAt ''/p/a.txt'' ''r1''])) = [''r1'']"
    by code_simp
  have few1: "card (set (contentsRevisions laterLookups) - {''r1''}) < 20"
    by (simp add: laterLookups_def contentsRevisions_def)
  have few2: "card (set (contentsRevisions [FileContentAt ''/p/b.txt'' ''r1'']) - {''r1''}) < 20"
    by (simp add: contentsRevisions_def)
  have start: "constructor = runLookups serviceNothing constructor []"
    by (simp add: runLookups_def)
  have calls: "serviceCalls
      (runLookups serviceNothing
         (snd (fetchFileContentAtRevision serviceNothing constructor ''/p/a.txt'' ''r1''))
         [FileContentAt ''/p/b.txt'' ''r1'']) =
     [FetchFileContentAtRevision ''/p/a.txt'' ''r1'',
      FetchFileContentAtRevision ''/p/b.txt'' ''r1'']"
    by code_simp
  note w1 = revision_caches_read_through [OF clientAfterLookups_def,
      where revision = "''r1''" and filePath = "''/p/a.txt''", unfolded c1 c2 k1 k2]
  note w2 = revision_caches_read_through [OF start,
      where revision = "''r1''" and filePath = "''/p/a.txt''"]
  from w1 have a:
    "map fst (lru_items (revisionIdToFileChanges clientAfterLookups)) = [''r1''] \<and>
     map fst (lru_items (fileContentsAtRevisionIds clientAfterLookups)) = [''r1''] \<and>
     fst (fetchFilesChangedAtRevision serviceNothing clientAfterLookups ''r1'') = [''r1''] \<and>
     serviceCalls (snd (fetchFilesChangedAtRevision serviceNothing clientAfterLookups ''r1'')) =
       serviceCalls clientAfterLookups \<and>
     fst (fetchFileContentAtRevision serviceNothing clientAfterLookups ''/p/a.txt'' ''r1'') =
       ''r1:/p/a.txt'' \<and>
     serviceCalls (snd (fetchFileContentAtRevision serviceNothing clientAfterLookups
                        ''/p/a.txt'' ''r1'')) =
       serviceCalls clientAfterLookups"
    by simp
  from w1 few1 have b:
    "cachedContents
       (runLookups serviceNothing
          (snd (fetchFileContentAtRevision serviceNothing clientAfterLookups ''/p/a.txt'' ''r1''))
          laterLookups)
       ''/p/a.txt'' ''r1'' =
     Some (fst (fetchFileContentAtRevision serviceNothing clientAfterLookups ''/p/a.txt'' ''r1''))"
    unfolding Let_def by blast
  from w2 few2 have
    "serviceCalls
       (snd (fetchFileContentAtRevision serviceNothing
               (runLookups serviceNothing
                  (snd (fetchFileContentAtRevision serviceNothing constructor ''/p/a.txt'' ''r1''))
                  [FileContentAt ''/p/b.txt'' ''r1''])
               ''/p/a.txt'' ''r1'')) =
     serviceCalls
       (runLookups serviceNothing
          (snd (fetchFileContentAtRevision serviceNothing constructor ''/p/a.txt'' ''r1''))
          [FileContentAt ''/p/b.txt'' ''r1''])"
    unfolding Let_def by blast
  with a b calls show ?thesis by simp
qed

theorem revision_caches_read_through_counterexample:
  "take 1 (serviceCalls clientAfterManyLookups) =
     [FetchFileContentAtRevision ''/p/a.txt'' (revisionName 0)] \<and>
   length (serviceCalls clientAfterManyLookups) = 21 \<and>
   cachedContents clientAfterManyLookups ''/p/a.txt'' (revisionName 0) = None \<and>
   serviceCalls (snd (fetchFileContentAtRevision serviceNothing clientAfterManyLookups
                        ''/p/a.txt'' (revisionName 0))) =
     serviceCalls clientAfterManyLookups @
     [FetchFileContentAtRevision ''/p/a.txt'' (revisionName 0)] \<and>
   map fst (lru_items (fileContentsAtRevisionIds clientAfterManyLookups)) =
     map revisionName (rev [1..<21]) \<and>
   cachedContents clientAfterManyLookups ''/p/a.txt'' (revisionName 1) =
     Some (revisionName 1 @ '':/p/a.txt'')"
  by code_simp

end
